theory Spec2Isabelle
  imports Main "HOL-Library.Char_ord" "HOL-Library.List_Lexorder" "HOL-Library.Product_Lexorder"
    "HOL-Library.Multiset"
begin

section \<open>Data model (types.ts)\<close>

text \<open>
  \<open>CRDTAttributes\<close> has five optional fields; an absent key is \<open>None\<close>.
  A \<open>CRDTChar\<close> has a value, a position (\<open>FractionalIndex = number[]\<close>), the
  creator's site id and an optional attribute object.  The field \<open>value\<close> is written
  \<open>val\<close>.

  The numbers of a position are integers.  A JavaScript number that holds an integer is
  modelled by that integer; where the code adds or subtracts, the rounding of the result
  to a 53-bit significand is written out (\<open>round_double\<close> below).  Numbers that are
  not integers, and magnitudes from \<open>2^1023\<close> on, where a result can overflow, are
  outside the model.
\<close>

record CRDTAttributes =
  bold :: "bool option"
  italic :: "bool option"
  underline :: "bool option"
  fontSize :: "string option"
  fontFamily :: "string option"

type_synonym FractionalIndex = "int list"

record CRDTChar =
  val :: string
  position :: FractionalIndex
  siteId :: string
  attributes :: "CRDTAttributes option"

text \<open>A delete descriptor \<open>{ position, siteId }\<close>.\<close>

type_synonym descriptor = "FractionalIndex \<times> string"

section \<open>Comparison (compareArrays, comparePositions)\<close>

text \<open>
  The loop of \<open>compareArrays\<close>: index \<open>i\<close> runs over the common length, the first
  differing component decides, then the lengths decide.
\<close>

function compareArrays_loop :: "int list \<Rightarrow> int list \<Rightarrow> nat \<Rightarrow> int" where
  "compareArrays_loop a b i =
     (if i < min (length a) (length b) then
        (if a ! i < b ! i then -1
         else if a ! i > b ! i then 1
         else compareArrays_loop a b (i + 1))
      else if length a < length b then -1
      else if length a > length b then 1
      else 0)"
  by pat_completeness auto
termination
  by (relation "measure (\<lambda>(a, b, i). min (length a) (length b) - i)") auto

declare compareArrays_loop.simps [simp del]

definition compareArrays :: "int list \<Rightarrow> int list \<Rightarrow> int" where
  "compareArrays a b = compareArrays_loop a b 0"

text \<open>
  \<open>String.prototype.localeCompare\<close> compares by the collation of the host: it orders
  two strings by their collation keys and returns 0 when the keys are equal, which
  happens for strings that are not the same (the collation ignores some characters).
  The collation is not part of the repository.  It is the parameter \<open>coll\<close>, the map
  from a string to its collation key in some linearly ordered type; nothing more is
  assumed of it.
\<close>

definition localeCompare :: "(string \<Rightarrow> 'k::linorder) \<Rightarrow> string \<Rightarrow> string \<Rightarrow> int" where
  "localeCompare coll s t = (if coll s < coll t then -1 else if coll t < coll s then 1 else 0)"

definition comparePositions :: "(string \<Rightarrow> 'k::linorder) \<Rightarrow> CRDTChar \<Rightarrow> CRDTChar \<Rightarrow> int" where
  "comparePositions coll a b =
     (let cmp = compareArrays (position a) (position b)
      in if cmp \<noteq> 0 then cmp else localeCompare coll (siteId a) (siteId b))"

text \<open>
  The key of an element is the pair (positional identifier, site identifier); two keys
  are the same when \<open>===\<close> holds of the site ids.  The comparator sees less: it
  orders elements by the pair of the position and the collation key of the site id, and
  returns 0 for two elements that agree on it, here called tied.
\<close>

definition char_key :: "CRDTChar \<Rightarrow> FractionalIndex \<times> string" where
  "char_key c = (position c, siteId c)"

definition order_key :: "(string \<Rightarrow> 'k::linorder) \<Rightarrow> CRDTChar \<Rightarrow> FractionalIndex \<times> 'k" where
  "order_key coll c = (position c, coll (siteId c))"

definition tied :: "(string \<Rightarrow> 'k::linorder) \<Rightarrow> FractionalIndex \<Rightarrow> string \<Rightarrow> CRDTChar \<Rightarrow> bool" where
  "tied coll pos site c \<longleftrightarrow> order_key coll c = (pos, coll site)"

text \<open>
  One collation, for the evaluated examples: it drops control characters and compares
  what is left by code unit.  The examples use it only on site ids on which it agrees
  with \<open>localeCompare\<close>: \<open>S1\<close> sorts before \<open>S2\<close>, and \<open>S1\<close> followed by the
  control character U+0001 is tied with \<open>S1\<close>.
\<close>

definition ignoring_controls :: "string \<Rightarrow> string" where
  "ignoring_controls s = filter (\<lambda>c. 32 \<le> (of_char c :: nat)) s"

section \<open>The allocator (generateIdentifierBetween)\<close>

text \<open>\<open>pos[i] ?? d\<close>: the component at index \<open>i\<close>, or \<open>d\<close> when it is missing.\<close>

definition nth_or :: "int list \<Rightarrow> nat \<Rightarrow> int \<Rightarrow> int" where
  "nth_or xs i d = (if i < length xs then xs ! i else d)"

definition BASE :: int where
  "BASE = 1024"

text \<open>
  The rounding of an exact integer result to a number: nothing changes up to \<open>2^53\<close>
  in magnitude; beyond, the result is the nearest multiple of the spacing \<open>q\<close> of the
  numbers at that magnitude, and of two equally near ones the one with the even
  multiplier.
\<close>

function bit_length :: "int \<Rightarrow> nat" where
  "bit_length n = (if n \<le> 0 then 0 else Suc (bit_length (n div 2)))"
  by pat_completeness auto
termination
  by (relation "measure nat") auto

declare bit_length.simps [simp del]

definition round_double :: "int \<Rightarrow> int" where
  "round_double n =
     (if \<bar>n\<bar> \<le> 2 ^ 53 then n
      else
        (let q = 2 ^ (bit_length \<bar>n\<bar> - 53);
             m = n div q;
             r = n mod q
         in if 2 * r < q then m * q
            else if q < 2 * r then (m + 1) * q
            else if even m then m * q
            else (m + 1) * q))"

text \<open>
  The \<open>while (true)\<close> loop at index \<open>i\<close>; the result is what the loop still pushes onto
  \<open>newPos\<close> from there.  \<open>diff / 2\<close> is exact, and \<open>Math.ceil(diff / 2)\<close> on an
  integer is \<open>(diff + 1) div 2\<close>.  The loop always ends: past depth 128 it pushes
  \<open>v1 + 1\<close> and returns.
\<close>

function generateIdentifierBetween_loop :: "int list \<Rightarrow> int list \<Rightarrow> nat \<Rightarrow> int list" where
  "generateIdentifierBetween_loop pos1 pos2 i =
     (let v1 = nth_or pos1 i 0;
          v2 = nth_or pos2 i BASE;
          diff = round_double (v2 - v1)
      in if diff > 1 then [round_double (v1 + (diff + 1) div 2)]
         else v1 # (if i + 1 > 128 then [round_double (v1 + 1)]
                    else generateIdentifierBetween_loop pos1 pos2 (i + 1)))"
  by pat_completeness auto
termination
  by (relation "measure (\<lambda>(pos1, pos2, i). 129 - i)") auto

declare generateIdentifierBetween_loop.simps [simp del]

definition generateIdentifierBetween :: "int list \<Rightarrow> int list \<Rightarrow> int list" where
  "generateIdentifierBetween pos1 pos2 = generateIdentifierBetween_loop pos1 pos2 0"

text \<open>
  The test of the loop at index \<open>i\<close>, and the pairs on which the loop returns from
  its first branch: the test succeeds at one of the indices 0 to 128, the ones the loop
  visits before the safety valve.
\<close>

definition room_at :: "int list \<Rightarrow> int list \<Rightarrow> nat \<Rightarrow> bool" where
  "room_at pos1 pos2 i \<longleftrightarrow> round_double (nth_or pos2 i BASE - nth_or pos1 i 0) > 1"

definition finds_room :: "int list \<Rightarrow> int list \<Rightarrow> bool" where
  "finds_room pos1 pos2 \<longleftrightarrow> list_ex (room_at pos1 pos2) [0..<129]"

section \<open>The sequence engine (class LSEQ)\<close>

text \<open>
  The engine owns the array \<open>chars\<close>; its site id never changes.  Every method is a
  function from the array before the call to the array after it, paired with the value
  the method returns.  Elements are treated as values: the engine copies what it loads,
  never stores one object at two indices, and never changes a key in place.
\<close>

definition get_text :: "CRDTChar list \<Rightarrow> string" where
  "get_text chars = concat (map val chars)"

text \<open>The copy \<open>{ ...c, position: [...c.position], attributes: c.attributes ? {...} : undefined }\<close>.\<close>

definition copy_char :: "CRDTChar \<Rightarrow> CRDTChar" where
  "copy_char c =
     c\<lparr>position := position c,
       attributes := (case attributes c of Some a \<Rightarrow> Some a | None \<Rightarrow> None)\<rparr>"

definition get_state :: "CRDTChar list \<Rightarrow> CRDTChar list" where
  "get_state chars = map copy_char chars"

text \<open>
  \<open>Array.prototype.sort\<close> with a comparator is stable; it is modelled by the stable
  insertion sort that places an element before the first element it does not exceed.
\<close>

fun insert_sorted :: "(string \<Rightarrow> 'k::linorder) \<Rightarrow> CRDTChar \<Rightarrow> CRDTChar list \<Rightarrow> CRDTChar list" where
  "insert_sorted coll c [] = [c]"
| "insert_sorted coll c (d # ds) =
     (if comparePositions coll c d \<le> 0 then c # d # ds else d # insert_sorted coll c ds)"

definition sort_chars :: "(string \<Rightarrow> 'k::linorder) \<Rightarrow> CRDTChar list \<Rightarrow> CRDTChar list" where
  "sort_chars coll cs = foldr (insert_sorted coll) cs []"

text \<open>\<open>newState ? newState.map(copy) : []\<close>, then the sort.\<close>

definition loadState :: "(string \<Rightarrow> 'k::linorder) \<Rightarrow> CRDTChar list option \<Rightarrow> CRDTChar list" where
  "loadState coll newState =
     sort_chars coll (case newState of Some cs \<Rightarrow> map copy_char cs | None \<Rightarrow> [])"

text \<open>\<open>this.chars[index]\<close> for an integer index: \<open>undefined\<close> out of range.\<close>

definition at_index :: "'a list \<Rightarrow> int \<Rightarrow> 'a option" where
  "at_index xs i = (if 0 \<le> i \<and> i < int (length xs) then Some (xs ! nat i) else None)"

text \<open>
  The binary search of \<open>remoteInsert\<close>: \<open>None\<close> is the early return on a duplicate,
  \<open>Some low\<close> the insertion index.  \<open>(low + high) >>> 1\<close> is the half of a sum below
  \<open>2^32\<close>.
\<close>

function remoteInsert_loop ::
  "(string \<Rightarrow> 'k::linorder) \<Rightarrow> CRDTChar list \<Rightarrow> CRDTChar \<Rightarrow> nat \<Rightarrow> nat \<Rightarrow> nat option" where
  "remoteInsert_loop coll chars c low high =
     (if low < high then
        (let mid = (low + high) div 2;
             cmp = comparePositions coll (chars ! mid) c
         in if cmp < 0 then remoteInsert_loop coll chars c (mid + 1) high
            else if cmp > 0 then remoteInsert_loop coll chars c low mid
            else None)
      else Some low)"
  by pat_completeness auto
termination
  by (relation "measure (\<lambda>(coll, chars, c, low, high). high - low)") auto

declare remoteInsert_loop.simps [simp del]

text \<open>\<open>remoteInsert\<close> returns the index, or nothing when the element was ignored.\<close>

definition remoteInsert ::
  "(string \<Rightarrow> 'k::linorder) \<Rightarrow> CRDTChar \<Rightarrow> CRDTChar list \<Rightarrow> CRDTChar list \<times> nat option" where
  "remoteInsert coll c chars =
     (case remoteInsert_loop coll chars c 0 (length chars) of
        None \<Rightarrow> (chars, None)
      | Some low \<Rightarrow> (take low chars @ c # drop low chars, Some low))"

text \<open>
  The two neighbours of \<open>localInsert\<close>:
  \<open>this.chars[index - 1]?.position ?? [0]\<close> and \<open>this.chars[index]?.position ?? [100]\<close>.
\<close>

definition prev_position :: "CRDTChar list \<Rightarrow> int \<Rightarrow> FractionalIndex" where
  "prev_position chars index =
     (case at_index chars (index - 1) of Some p \<Rightarrow> position p | None \<Rightarrow> [0])"

definition next_position :: "CRDTChar list \<Rightarrow> int \<Rightarrow> FractionalIndex" where
  "next_position chars index =
     (case at_index chars index of Some n \<Rightarrow> position n | None \<Rightarrow> [100])"

definition localInsert ::
  "(string \<Rightarrow> 'k::linorder) \<Rightarrow> string \<Rightarrow> int \<Rightarrow> string \<Rightarrow> CRDTAttributes option \<Rightarrow> CRDTChar list \<Rightarrow>
   CRDTChar list \<times> CRDTChar" where
  "localInsert coll site index v attrs chars =
     (let prev = prev_position chars index;
          next = next_position chars index;
          c = \<lparr>val = v, position = generateIdentifierBetween prev next, siteId = site,
               attributes = (case attrs of Some a \<Rightarrow> Some a | None \<Rightarrow> None)\<rparr>
      in (fst (remoteInsert coll c chars), c))"

text \<open>
  The binary search of \<open>remoteDelete\<close>, on integers since \<open>high\<close> starts at
  \<open>length - 1\<close> and may reach \<open>-1\<close>; \<open>Some mid\<close> is the index found.
\<close>

function remoteDelete_loop ::
  "(string \<Rightarrow> 'k::linorder) \<Rightarrow> CRDTChar list \<Rightarrow> FractionalIndex \<Rightarrow> string \<Rightarrow> int \<Rightarrow> int \<Rightarrow> nat option" where
  "remoteDelete_loop coll chars pos site low high =
     (if low \<le> high then
        (let mid = (low + high) div 2;
             midChar = chars ! nat mid;
             posCmp = compareArrays (position midChar) pos;
             cmp = (if posCmp \<noteq> 0 then posCmp else localeCompare coll (siteId midChar) site)
         in if cmp < 0 then remoteDelete_loop coll chars pos site (mid + 1) high
            else if cmp > 0 then remoteDelete_loop coll chars pos site low (mid - 1)
            else Some (nat mid))
      else None)"
  by pat_completeness auto
termination
  by (relation "measure (\<lambda>(coll, chars, pos, site, low, high). nat (high - low + 1))") auto

declare remoteDelete_loop.simps [simp del]

text \<open>\<open>Array.prototype.findIndex\<close>; \<open>None\<close> stands for \<open>-1\<close>.\<close>

fun findIndex :: "('a \<Rightarrow> bool) \<Rightarrow> 'a list \<Rightarrow> nat option" where
  "findIndex P [] = None"
| "findIndex P (x # xs) = (if P x then Some 0 else map_option Suc (findIndex P xs))"

text \<open>
  \<open>splice(idx, 1)\<close>, and the test of the fallback search and of \<open>remoteFormat\<close>,
  which compares the site ids with \<open>===\<close>.
\<close>

definition splice_out :: "nat \<Rightarrow> 'a list \<Rightarrow> 'a list" where
  "splice_out idx xs = take idx xs @ drop (Suc idx) xs"

definition same_key :: "FractionalIndex \<Rightarrow> string \<Rightarrow> CRDTChar \<Rightarrow> bool" where
  "same_key pos site c \<longleftrightarrow> compareArrays (position c) pos = 0 \<and> siteId c = site"

definition remoteDelete ::
  "(string \<Rightarrow> 'k::linorder) \<Rightarrow> FractionalIndex \<Rightarrow> string \<Rightarrow> CRDTChar list \<Rightarrow> CRDTChar list \<times> int" where
  "remoteDelete coll pos site chars =
     (case remoteDelete_loop coll chars pos site 0 (int (length chars) - 1) of
        Some mid \<Rightarrow> (splice_out mid chars, int mid)
      | None \<Rightarrow>
          (case findIndex (same_key pos site) chars of
             Some idx \<Rightarrow> (splice_out idx chars, int idx)
           | None \<Rightarrow> (chars, -1)))"

definition localDelete ::
  "(string \<Rightarrow> 'k::linorder) \<Rightarrow> int \<Rightarrow> CRDTChar list \<Rightarrow> CRDTChar list \<times> descriptor option" where
  "localDelete coll index chars =
     (case at_index chars index of
        None \<Rightarrow> (chars, None)
      | Some c \<Rightarrow>
          (fst (remoteDelete coll (position c) (siteId c) chars), Some (position c, siteId c)))"

definition localBatchDelete ::
  "int \<Rightarrow> int \<Rightarrow> CRDTChar list \<Rightarrow> CRDTChar list \<times> (CRDTChar \<times> descriptor) list" where
  "localBatchDelete startIndex endIndex chars =
     (if startIndex < 0 \<or> endIndex > int (length chars) \<or> startIndex \<ge> endIndex then (chars, [])
      else
        (let s = nat startIndex; e = nat endIndex;
             results = map (\<lambda>c. (c, (position c, siteId c))) (take (e - s) (drop s chars))
         in (take s chars @ drop e chars, results)))"

text \<open>
  The shallow merge \<open>{ ...a, ...b }\<close>, key by key: a key that \<open>b\<close> has wins, any
  other key keeps what \<open>a\<close> has.
\<close>

definition empty_attributes :: CRDTAttributes where
  "empty_attributes =
     \<lparr>bold = None, italic = None, underline = None, fontSize = None, fontFamily = None\<rparr>"

definition override :: "'a option \<Rightarrow> 'a option \<Rightarrow> 'a option" where
  "override old new = (case new of Some v \<Rightarrow> Some v | None \<Rightarrow> old)"

definition merge_attributes :: "CRDTAttributes \<Rightarrow> CRDTAttributes \<Rightarrow> CRDTAttributes" where
  "merge_attributes a b =
     \<lparr>bold = override (bold a) (bold b),
      italic = override (italic a) (italic b),
      underline = override (underline a) (underline b),
      fontSize = override (fontSize a) (fontSize b),
      fontFamily = override (fontFamily a) (fontFamily b)\<rparr>"

text \<open>\<open>char.attributes || {}\<close>.\<close>

definition attributes_or_empty :: "CRDTChar \<Rightarrow> CRDTAttributes" where
  "attributes_or_empty c = (case attributes c of Some a \<Rightarrow> a | None \<Rightarrow> empty_attributes)"

text \<open>\<open>char.attributes = { ...(char.attributes || {}), ...attributes }\<close>.\<close>

definition format_char :: "CRDTAttributes \<Rightarrow> CRDTChar \<Rightarrow> CRDTChar" where
  "format_char patch c = c\<lparr>attributes := Some (merge_attributes (attributes_or_empty c) patch)\<rparr>"

definition localFormat :: "int \<Rightarrow> CRDTAttributes \<Rightarrow> CRDTChar list \<Rightarrow> CRDTChar list \<times> descriptor option" where
  "localFormat index patch chars =
     (case at_index chars index of
        None \<Rightarrow> (chars, None)
      | Some c \<Rightarrow> (chars[nat index := format_char patch c], Some (position c, siteId c)))"

text \<open>\<open>find\<close> returns the first matching element, which is then changed in place.\<close>

definition remoteFormat :: "FractionalIndex \<Rightarrow> string \<Rightarrow> CRDTAttributes \<Rightarrow> CRDTChar list \<Rightarrow> CRDTChar list" where
  "remoteFormat pos site patch chars =
     (case findIndex (same_key pos site) chars of
        Some i \<Rightarrow> chars[i := format_char patch (chars ! i)]
      | None \<Rightarrow> chars)"

subsection \<open>Bulk deletion by string keys\<close>

text \<open>
  \<open>batchRemoteDelete\<close> keys an element by the string \<open>siteId:p1,p2,...\<close>.  An integer
  prints in decimal, with a leading minus sign when negative.  (From \<open>10^21\<close> on a
  number prints with an exponent instead; there, too, different numbers give different
  strings, and the strings are only tested for equality.)
\<close>

definition digit_char :: "nat \<Rightarrow> char" where
  "digit_char d = char_of (48 + d)"

function num_digits :: "nat \<Rightarrow> string" where
  "num_digits n = (if n < 10 then [digit_char n] else num_digits (n div 10) @ [digit_char (n mod 10)])"
  by pat_completeness auto
termination
  by (relation "measure id") auto

declare num_digits.simps [simp del]

definition number_toString :: "int \<Rightarrow> string" where
  "number_toString i = (if i < 0 then CHR ''-'' # num_digits (nat (- i)) else num_digits (nat i))"

fun join_comma :: "string list \<Rightarrow> string" where
  "join_comma [] = []"
| "join_comma [s] = s"
| "join_comma (s # t # ts) = s @ CHR '','' # join_comma (t # ts)"

definition delKey :: "string \<Rightarrow> FractionalIndex \<Rightarrow> string" where
  "delKey site pos = site @ CHR '':'' # join_comma (map number_toString pos)"

text \<open>
  The compaction pass: \<open>i\<close> reads, \<open>writeIdx\<close> writes, \<open>deletedCount\<close> counts; the
  result is the array with its kept elements moved to the front, and the two counters.
\<close>

function compact_loop ::
  "string set \<Rightarrow> CRDTChar list \<Rightarrow> nat \<Rightarrow> nat \<Rightarrow> nat \<Rightarrow> CRDTChar list \<times> nat \<times> nat" where
  "compact_loop deletionSet chars i writeIdx deletedCount =
     (if i < length chars then
        (let c = chars ! i
         in if delKey (siteId c) (position c) \<notin> deletionSet
            then compact_loop deletionSet (if writeIdx \<noteq> i then chars[writeIdx := c] else chars)
                   (i + 1) (writeIdx + 1) deletedCount
            else compact_loop deletionSet chars (i + 1) writeIdx (deletedCount + 1))
      else (chars, writeIdx, deletedCount))"
  by pat_completeness auto
termination
  by (relation "measure (\<lambda>(deletionSet, chars, i, writeIdx, deletedCount). length chars - i)") auto

declare compact_loop.simps [simp del]

definition batchRemoteDelete :: "descriptor list \<Rightarrow> CRDTChar list \<Rightarrow> CRDTChar list \<times> nat" where
  "batchRemoteDelete ops chars =
     (if length ops = 0 then (chars, 0)
      else
        (let deletionSet = set (map (\<lambda>(pos, site). delKey site pos) ops)
         in case compact_loop deletionSet chars 0 0 0 of
              (chars', writeIdx, deletedCount) \<Rightarrow>
                (if writeIdx < length chars' then take writeIdx chars' else chars', deletedCount)))"

subsection \<open>Calls and sequences of calls\<close>

datatype engine_call =
    LocalInsert int string "CRDTAttributes option"
  | LocalDelete int
  | LocalBatchDelete int int
  | LocalFormat int CRDTAttributes
  | RemoteInsert CRDTChar
  | RemoteDelete FractionalIndex string
  | BatchRemoteDelete "descriptor list"
  | RemoteFormat FractionalIndex string CRDTAttributes
  | LoadState "CRDTChar list option"

text \<open>The array after one call on the engine of site \<open>site\<close>.\<close>

fun run_call ::
  "(string \<Rightarrow> 'k::linorder) \<Rightarrow> string \<Rightarrow> engine_call \<Rightarrow> CRDTChar list \<Rightarrow> CRDTChar list" where
  "run_call coll site (LocalInsert index v attrs) chars =
     fst (localInsert coll site index v attrs chars)"
| "run_call coll site (LocalDelete index) chars = fst (localDelete coll index chars)"
| "run_call coll site (LocalBatchDelete s e) chars = fst (localBatchDelete s e chars)"
| "run_call coll site (LocalFormat index patch) chars = fst (localFormat index patch chars)"
| "run_call coll site (RemoteInsert c) chars = fst (remoteInsert coll c chars)"
| "run_call coll site (RemoteDelete pos s) chars = fst (remoteDelete coll pos s chars)"
| "run_call coll site (BatchRemoteDelete ops) chars = fst (batchRemoteDelete ops chars)"
| "run_call coll site (RemoteFormat pos s patch) chars = remoteFormat pos s patch chars"
| "run_call coll site (LoadState newState) chars = loadState coll newState"

text \<open>The arrays an engine can hold: empty at construction, then any calls.\<close>

inductive reachable :: "(string \<Rightarrow> 'k::linorder) \<Rightarrow> string \<Rightarrow> CRDTChar list \<Rightarrow> bool"
  for coll :: "string \<Rightarrow> 'k::linorder" and site :: string where
  reachable_init: "reachable coll site []"
| reachable_call: "reachable coll site chars \<Longrightarrow> reachable coll site (run_call coll site call chars)"

text \<open>
  The parts of the sequence invariant: sorted under the comparator, no two elements
  with one key, and, stronger than the latter, no two elements tied under the
  comparator.
\<close>

definition sorted_chars :: "(string \<Rightarrow> 'k::linorder) \<Rightarrow> CRDTChar list \<Rightarrow> bool" where
  "sorted_chars coll chars \<longleftrightarrow> sorted (map (order_key coll) chars)"

definition distinct_keys :: "CRDTChar list \<Rightarrow> bool" where
  "distinct_keys chars \<longleftrightarrow> distinct (map char_key chars)"

definition untied :: "(string \<Rightarrow> 'k::linorder) \<Rightarrow> CRDTChar list \<Rightarrow> bool" where
  "untied coll chars \<longleftrightarrow> distinct (map (order_key coll) chars)"

text \<open>
  A call whose snapshot has no two elements with one key; every other call qualifies.
\<close>

fun unique_snapshot :: "engine_call \<Rightarrow> bool" where
  "unique_snapshot (LoadState (Some st)) = distinct_keys st"
| "unique_snapshot call = True"

text \<open>Two attribute objects that agree on every key the patch does not set.\<close>

definition agree_outside :: "CRDTAttributes \<Rightarrow> CRDTAttributes \<Rightarrow> CRDTAttributes \<Rightarrow> bool" where
  "agree_outside patch a b \<longleftrightarrow>
     (bold patch = None \<longrightarrow> bold a = bold b) \<and>
     (italic patch = None \<longrightarrow> italic a = italic b) \<and>
     (underline patch = None \<longrightarrow> underline a = underline b) \<and>
     (fontSize patch = None \<longrightarrow> fontSize a = fontSize b) \<and>
     (fontFamily patch = None \<longrightarrow> fontFamily a = fontFamily b)"

section \<open>Remote operations (CRDTOperation and the message handler)\<close>









section \<open>The editor's undo and redo (the Editor component)\<close>

text \<open>
  An undo entry holds a reference to an element object, not a copy: \<open>applyToSelection\<close>
  stores the object that sits in the engine's array, and \<open>localFormat\<close> later replaces
  the \<open>attributes\<close> field of that same object.  So the editor is modelled with a
  store of objects, addressed by index, and the engine's array as a list of references.
  The engine's methods find their place in the array by the keys of the objects; the
  array of references is changed at the index the method computes on the objects.
\<close>

datatype entry_type = entry_insert | entry_delete | entry_format

record UndoOperation =
  type :: entry_type
  char :: nat
  prevAttributes :: "CRDTAttributes option"

type_synonym UndoBatch = "UndoOperation list"

record Editor =
  objects :: "CRDTChar list"
  rawChars :: "nat list"
  undoStack :: "UndoBatch list"
  redoStack :: "UndoBatch list"

text \<open>The engine's array with every reference replaced by its object.\<close>

definition contents :: "Editor \<Rightarrow> CRDTChar list" where
  "contents e = map (\<lambda>r. objects e ! r) (rawChars e)"

definition lseq_remoteInsert :: "(string \<Rightarrow> 'k::linorder) \<Rightarrow> nat \<Rightarrow> Editor \<Rightarrow> Editor" where
  "lseq_remoteInsert coll r e =
     (case snd (remoteInsert coll (objects e ! r) (contents e)) of
        None \<Rightarrow> e
      | Some low \<Rightarrow> e\<lparr>rawChars := take low (rawChars e) @ r # drop low (rawChars e)\<rparr>)"

definition lseq_remoteDelete ::
  "(string \<Rightarrow> 'k::linorder) \<Rightarrow> FractionalIndex \<Rightarrow> string \<Rightarrow> Editor \<Rightarrow> Editor" where
  "lseq_remoteDelete coll pos site e =
     (let idx = snd (remoteDelete coll pos site (contents e))
      in if idx = -1 then e else e\<lparr>rawChars := splice_out (nat idx) (rawChars e)\<rparr>)"

definition lseq_remoteFormat :: "FractionalIndex \<Rightarrow> string \<Rightarrow> CRDTAttributes \<Rightarrow> Editor \<Rightarrow> Editor" where
  "lseq_remoteFormat pos site patch e =
     (case findIndex (same_key pos site) (contents e) of
        None \<Rightarrow> e
      | Some i \<Rightarrow>
          (let r = rawChars e ! i
           in e\<lparr>objects := (objects e)[r := format_char patch (objects e ! r)]\<rparr>))"

definition lseq_localFormat :: "int \<Rightarrow> CRDTAttributes \<Rightarrow> Editor \<Rightarrow> Editor \<times> descriptor option" where
  "lseq_localFormat index patch e =
     (case at_index (rawChars e) index of
        None \<Rightarrow> (e, None)
      | Some r \<Rightarrow>
          (e\<lparr>objects := (objects e)[r := format_char patch (objects e ! r)]\<rparr>,
           Some (position (objects e ! r), siteId (objects e ! r))))"

text \<open>
  \<open>pushToUndo\<close>: an empty batch is not pushed; the stack keeps at most 100 batches; the
  redo stack is cleared.
\<close>

definition pushToUndo :: "UndoBatch \<Rightarrow> Editor \<Rightarrow> Editor" where
  "pushToUndo batch e =
     (if length batch = 0 then e
      else
        (let pushed = undoStack e @ [batch];
             kept = (if length pushed > 100 then tl pushed else pushed)
         in e\<lparr>undoStack := kept, redoStack := []\<rparr>))"

text \<open>
  The loop of \<open>applyToSelection\<close> from index \<open>i\<close>: it stops at the end of the selection or at the end
  of the array, formats each element and records the element with the attributes it had.
\<close>

function applyToSelection_loop ::
  "CRDTAttributes \<Rightarrow> nat \<Rightarrow> nat \<Rightarrow> Editor \<Rightarrow> UndoBatch \<Rightarrow> Editor \<times> UndoBatch" where
  "applyToSelection_loop patch i endIndex e batch =
     (if i < endIndex \<and> i < length (rawChars e) then
        (let r = rawChars e ! i;
             oldAttrs = attributes_or_empty (objects e ! r)
         in case lseq_localFormat (int i) patch e of
              (e', Some result) \<Rightarrow>
                applyToSelection_loop patch (i + 1) endIndex e'
                  (batch @ [\<lparr>type = entry_format, char = r, prevAttributes = Some oldAttrs\<rparr>])
            | (e', None) \<Rightarrow> applyToSelection_loop patch (i + 1) endIndex e' batch)
      else (e, batch))"
  by pat_completeness auto
termination
  by (relation "measure (\<lambda>(patch, i, endIndex, e, batch). endIndex - i)") auto

declare applyToSelection_loop.simps [simp del]

definition applyToSelection :: "CRDTAttributes \<Rightarrow> nat \<Rightarrow> nat \<Rightarrow> Editor \<Rightarrow> Editor" where
  "applyToSelection patch start endIndex e =
     (case applyToSelection_loop patch start endIndex e [] of
        (e', batch) \<Rightarrow> pushToUndo batch e')"

text \<open>
  One entry of \<open>handleUndo\<close>: an insert is deleted, a delete is inserted again, a
  format applies the recorded attributes through \<open>remoteFormat\<close>.  The result is the
  editor and the entry for the redo batch.
\<close>

definition undo_entry ::
  "(string \<Rightarrow> 'k::linorder) \<Rightarrow> UndoOperation \<Rightarrow> Editor \<Rightarrow> Editor \<times> UndoOperation" where
  "undo_entry coll entry e =
     (let c = objects e ! char entry
      in case type entry of
           entry_insert \<Rightarrow> (lseq_remoteDelete coll (position c) (siteId c) e, entry)
         | entry_delete \<Rightarrow> (lseq_remoteInsert coll (char entry) e, entry)
         | entry_format \<Rightarrow>
             (let currentAttrs = attributes_or_empty c;
                  prev = (case prevAttributes entry of Some a \<Rightarrow> a | None \<Rightarrow> empty_attributes)
              in (lseq_remoteFormat (position c) (siteId c) prev e,
                  entry\<lparr>prevAttributes := Some currentAttrs\<rparr>)))"

text \<open>The entries of a batch from the last to the first; \<open>unshift\<close> puts each in front.\<close>

fun undo_batch ::
  "(string \<Rightarrow> 'k::linorder) \<Rightarrow> UndoOperation list \<Rightarrow> Editor \<Rightarrow> UndoBatch \<Rightarrow> Editor \<times> UndoBatch" where
  "undo_batch coll [] e redoBatch = (e, redoBatch)"
| "undo_batch coll (entry # earlier) e redoBatch =
     (case undo_entry coll entry e of (e', entry') \<Rightarrow> undo_batch coll earlier e' (entry' # redoBatch))"

definition handleUndo :: "(string \<Rightarrow> 'k::linorder) \<Rightarrow> Editor \<Rightarrow> Editor" where
  "handleUndo coll e =
     (if undoStack e = [] then e
      else
        (let batch = last (undoStack e);
             e1 = e\<lparr>undoStack := butlast (undoStack e)\<rparr>
         in case undo_batch coll (rev batch) e1 [] of
              (e2, redoBatch) \<Rightarrow> e2\<lparr>redoStack := redoStack e2 @ [redoBatch]\<rparr>))"

text \<open>One entry of \<open>handleRedo\<close>, and the entries of a batch from the first to the last.\<close>

definition redo_entry ::
  "(string \<Rightarrow> 'k::linorder) \<Rightarrow> UndoOperation \<Rightarrow> Editor \<Rightarrow> Editor \<times> UndoOperation" where
  "redo_entry coll entry e =
     (let c = objects e ! char entry
      in case type entry of
           entry_insert \<Rightarrow> (lseq_remoteInsert coll (char entry) e, entry)
         | entry_delete \<Rightarrow> (lseq_remoteDelete coll (position c) (siteId c) e, entry)
         | entry_format \<Rightarrow>
             (let currentAttrs = attributes_or_empty c;
                  prev = (case prevAttributes entry of Some a \<Rightarrow> a | None \<Rightarrow> empty_attributes)
              in (lseq_remoteFormat (position c) (siteId c) prev e,
                  entry\<lparr>prevAttributes := Some currentAttrs\<rparr>)))"

fun redo_batch ::
  "(string \<Rightarrow> 'k::linorder) \<Rightarrow> UndoOperation list \<Rightarrow> Editor \<Rightarrow> UndoBatch \<Rightarrow> Editor \<times> UndoBatch" where
  "redo_batch coll [] e undoBatch = (e, undoBatch)"
| "redo_batch coll (entry # later) e undoBatch =
     (case redo_entry coll entry e of (e', entry') \<Rightarrow> redo_batch coll later e' (undoBatch @ [entry']))"

definition handleRedo :: "(string \<Rightarrow> 'k::linorder) \<Rightarrow> Editor \<Rightarrow> Editor" where
  "handleRedo coll e =
     (if redoStack e = [] then e
      else
        (let batch = last (redoStack e);
             e1 = e\<lparr>redoStack := butlast (redoStack e)\<rparr>
         in case redo_batch coll batch e1 [] of
              (e2, undoBatch) \<Rightarrow> e2\<lparr>undoStack := undoStack e2 @ [undoBatch]\<rparr>))"

section \<open>Facts about the comparison\<close>

lemma compareArrays_loop_lex:
  "i \<le> length a \<Longrightarrow> i \<le> length b \<Longrightarrow>
   compareArrays_loop a b i =
     (if drop i a < drop i b then -1 else if drop i b < drop i a then 1 else 0)"
proof (induction a b i rule: compareArrays_loop.induct)
  case (1 a b i)
  show ?case
  proof (cases "i < min (length a) (length b)")
    case True
    then have da: "drop i a = a ! i # drop (Suc i) a" and db: "drop i b = b ! i # drop (Suc i) b"
      by (simp_all add: Cons_nth_drop_Suc)
    show ?thesis
    proof (cases "a ! i = b ! i")
      case False
      then show ?thesis
        using True da db by (subst compareArrays_loop.simps) auto
    next
      case eq: True
      have "compareArrays_loop a b (i + 1) =
        (if drop (i + 1) a < drop (i + 1) b then -1 else if drop (i + 1) b < drop (i + 1) a then 1 else 0)"
        using 1 True eq by auto
      then show ?thesis
        using True eq da db by (subst compareArrays_loop.simps) auto
    qed
  next
    case False
    then have "drop i a = [] \<or> drop i b = []"
      using 1(2,3) by auto
    then show ?thesis
      using False 1(2,3)
      by (subst compareArrays_loop.simps) (cases "drop i a"; cases "drop i b"; auto)
  qed
qed

lemma compareArrays_lex:
  "compareArrays a b = (if a < b then -1 else if b < a then 1 else 0)"
  unfolding compareArrays_def using compareArrays_loop_lex [of 0 a b] by simp

lemma comparePositions_key:
  "comparePositions coll a b =
     (if order_key coll a < order_key coll b then -1
      else if order_key coll b < order_key coll a then 1 else 0)"
  by (auto simp add: comparePositions_def compareArrays_lex localeCompare_def order_key_def Let_def)

lemma comparePositions_neg [simp]:
  "comparePositions coll a b < 0 \<longleftrightarrow> order_key coll a < order_key coll b"
  by (simp add: comparePositions_key)

lemma comparePositions_pos [simp]:
  "comparePositions coll a b > 0 \<longleftrightarrow> order_key coll b < order_key coll a"
  by (auto simp add: comparePositions_key)

lemma comparePositions_zero [simp]:
  "comparePositions coll a b = 0 \<longleftrightarrow> order_key coll a = order_key coll b"
  by (auto simp add: comparePositions_key)

text \<open>Elements with one key are tied; the converse fails when the collation ties two site ids.\<close>

lemma char_key_sort_key: "char_key a = char_key b \<Longrightarrow> order_key coll a = order_key coll b"
  by (simp add: char_key_def order_key_def)

lemma same_key_tied: "same_key pos site c \<Longrightarrow> tied coll pos site c"
  by (simp add: same_key_def tied_def order_key_def compareArrays_lex split: if_splits)

lemma tied_iff: "tied coll pos site c \<longleftrightarrow> position c = pos \<and> coll (siteId c) = coll site"
  by (simp add: tied_def order_key_def)

lemma untied_distinct_keys: "untied coll cs \<Longrightarrow> distinct_keys cs"
proof -
  assume u: "untied coll cs"
  have "map (order_key coll) cs = map (\<lambda>k. (fst k, coll (snd k))) (map char_key cs)"
    by (simp add: order_key_def char_key_def)
  then have "distinct (map (\<lambda>k. (fst k, coll (snd k))) (map char_key cs))"
    using u by (simp only: untied_def)
  then show ?thesis unfolding distinct_keys_def by (simp only: distinct_map)
qed
section \<open>The allocator stays between its bounds\<close>

text \<open>Rounding: numbers up to \<open>2^53\<close> in magnitude are exact.\<close>

lemma bit_length_bounds: "2 ^ k \<le> n \<Longrightarrow> n < 2 ^ Suc k \<Longrightarrow> bit_length n = Suc k"
proof (induction k arbitrary: n)
  case 0
  then have "n = 1" by simp
  then show ?case by (simp add: bit_length.simps)
next
  case (Suc k)
  have "2 ^ k \<le> n div 2" using Suc.prems(1) by simp
  moreover have "n div 2 < 2 ^ Suc k" using Suc.prems(2) by simp
  ultimately have "bit_length (n div 2) = Suc k" by (rule Suc.IH)
  moreover have "(0::int) < 2 ^ Suc k" by simp
  then have "\<not> n \<le> 0" using Suc.prems(1) by linarith
  ultimately show ?case by (subst bit_length.simps) simp
qed

lemma round_double_id: "\<bar>n\<bar> \<le> 2 ^ 53 \<Longrightarrow> round_double n = n"
  by (simp add: round_double_def)

lemma round_double_range:
  assumes "2 ^ 53 < n" and "n \<le> 2 ^ 54"
  shows "2 ^ 53 \<le> round_double n \<and> round_double n \<le> 2 ^ 54"
proof (cases "n = 2 ^ 54")
  case True
  have "bit_length \<bar>n\<bar> = Suc 54"
    using True by (intro bit_length_bounds) simp_all
  then show ?thesis
    using True by (simp add: round_double_def Let_def)
next
  case False
  have "bit_length \<bar>n\<bar> = Suc 53"
    using assms False by (intro bit_length_bounds) simp_all
  then have q: "round_double n =
     (if 2 * (n mod 2) < 2 then (n div 2) * 2
      else if 2 < 2 * (n mod 2) then (n div 2 + 1) * 2
      else if even (n div 2) then (n div 2) * 2 else (n div 2 + 1) * 2)"
    using assms by (simp add: round_double_def Let_def)
  have "2 ^ 52 \<le> n div 2" using assms(1) by simp
  moreover have "n div 2 < 2 ^ 53" using assms(2) False by simp
  ultimately show ?thesis unfolding q by auto
qed

lemma midpoint_test:
  assumes "\<bar>v1\<bar> \<le> 2 ^ 53" and "0 \<le> v2" and "v2 \<le> 2 ^ 53"
  shows "round_double (v2 - v1) > 1 \<longleftrightarrow> v2 - v1 > 1"
proof (cases "v2 - v1 \<le> 2 ^ 53")
  case True
  then have "\<bar>v2 - v1\<bar> \<le> 2 ^ 53" using assms by simp
  then show ?thesis by (simp add: round_double_id)
next
  case False
  then have "2 ^ 53 < v2 - v1" and "v2 - v1 \<le> 2 ^ 54" using assms by simp_all
  then have "2 ^ 53 \<le> round_double (v2 - v1)" using round_double_range by blast
  then show ?thesis using False by simp
qed

lemma midpoint_between:
  assumes "\<bar>v1\<bar> \<le> 2 ^ 53" and "0 \<le> v2" and "v2 \<le> 2 ^ 53" and "v2 - v1 > 1"
  shows "v1 < round_double (v1 + (round_double (v2 - v1) + 1) div 2) \<and>
         round_double (v1 + (round_double (v2 - v1) + 1) div 2) < v2"
proof (cases "v2 - v1 \<le> 2 ^ 53")
  case True
  then have d: "round_double (v2 - v1) = v2 - v1" using assms by (simp add: round_double_id)
  have lo: "v1 < v1 + (v2 - v1 + 1) div 2" using assms(4) by linarith
  have hi: "v1 + (v2 - v1 + 1) div 2 < v2" using assms(4) by linarith
  have "\<bar>v1 + (v2 - v1 + 1) div 2\<bar> \<le> 2 ^ 53" using lo hi assms(1,3) by linarith
  then show ?thesis using lo hi d by (simp add: round_double_id)
next
  case False
  then have "2 ^ 53 < v2 - v1" and "v2 - v1 \<le> 2 ^ 54" using assms by simp_all
  then have r: "2 ^ 53 \<le> round_double (v2 - v1)" "round_double (v2 - v1) \<le> 2 ^ 54"
    using round_double_range by blast+
  define h where "h = (round_double (v2 - v1) + 1) div 2"
  have h: "2 ^ 52 \<le> h" "h \<le> 2 ^ 53" using r unfolding h_def by simp_all
  have "(0::int) \<le> 2 ^ 52" by simp
  then have "\<bar>v1 + h\<bar> \<le> 2 ^ 53" using h assms(1,2,3) False by linarith
  then have "round_double (v1 + h) = v1 + h" by (rule round_double_id)
  moreover have "v1 < v1 + h" using h by simp
  moreover have "v1 + h < v2" using h False by linarith
  ultimately show ?thesis unfolding h_def by simp
qed

text \<open>The loop, when it finds room at an index up to 128.\<close>

lemma gib_nonempty: "generateIdentifierBetween_loop p1 p2 i \<noteq> []"
  by (subst generateIdentifierBetween_loop.simps) (simp add: Let_def)

lemma nth_or_bounds:
  "\<forall>c \<in> set p. lo \<le> c \<and> c \<le> hi \<Longrightarrow> lo \<le> d \<Longrightarrow> d \<le> hi \<Longrightarrow>
   lo \<le> nth_or p i d \<and> nth_or p i d \<le> hi"
  by (simp add: nth_or_def)

lemma gib_lower:
  assumes "\<exists>j. i \<le> j \<and> j \<le> 128 \<and> room_at p1 p2 j"
    and "\<forall>c \<in> set p1. - (2 ^ 53) \<le> c \<and> c \<le> 2 ^ 53"
    and "\<forall>c \<in> set p2. 0 \<le> c \<and> c \<le> 2 ^ 53"
  shows "drop i p1 < generateIdentifierBetween_loop p1 p2 i"
  using assms
proof (induction p1 p2 i rule: generateIdentifierBetween_loop.induct)
  case (1 pos1 pos2 i)
  let ?v1 = "nth_or pos1 i 0" and ?v2 = "nth_or pos2 i BASE"
  have b1: "\<bar>?v1\<bar> \<le> 2 ^ 53"
    using nth_or_bounds [OF 1(3), of 0 i] by (simp add: abs_le_iff)
  have b2: "0 \<le> ?v2 \<and> ?v2 \<le> 2 ^ 53"
    using nth_or_bounds [OF 1(4), of BASE i] by (simp add: BASE_def)
  have test: "round_double (?v2 - ?v1) > 1 \<longleftrightarrow> ?v2 - ?v1 > 1"
    using b1 b2 by (intro midpoint_test) simp_all
  show ?case
  proof (cases "?v2 - ?v1 > 1")
    case gap: True
    have res: "generateIdentifierBetween_loop pos1 pos2 i =
                 [round_double (?v1 + (round_double (?v2 - ?v1) + 1) div 2)]"
      using gap test by (subst generateIdentifierBetween_loop.simps) (simp add: Let_def)
    have mid: "?v1 < round_double (?v1 + (round_double (?v2 - ?v1) + 1) div 2)"
      using midpoint_between [of ?v1 ?v2] b1 b2 gap by simp
    show ?thesis
    proof (cases "i < length pos1")
      case True
      then have "drop i pos1 = pos1 ! i # drop (Suc i) pos1"
        by (simp add: Cons_nth_drop_Suc)
      moreover have "?v1 = pos1 ! i" using True by (simp add: nth_or_def)
      ultimately show ?thesis using res mid by simp
    next
      case False
      then show ?thesis using res by simp
    qed
  next
    case nogap: False
    then have "\<not> room_at pos1 pos2 i" using test by (simp add: room_at_def)
    then have later: "\<exists>j. i + 1 \<le> j \<and> j \<le> 128 \<and> room_at pos1 pos2 j"
      using 1(2) by (metis Suc_eq_plus1 Suc_leI le_neq_implies_less)
    then have nocap: "\<not> i + 1 > 128" by auto
    have res: "generateIdentifierBetween_loop pos1 pos2 i =
                 ?v1 # generateIdentifierBetween_loop pos1 pos2 (i + 1)"
      using nogap test nocap by (subst generateIdentifierBetween_loop.simps) (simp add: Let_def)
    have rec: "drop (i + 1) pos1 < generateIdentifierBetween_loop pos1 pos2 (i + 1)"
      using 1(1) [OF refl refl refl _ _ later 1(3) 1(4)] nogap test nocap by simp
    show ?thesis
    proof (cases "i < length pos1")
      case True
      then have "drop i pos1 = pos1 ! i # drop (Suc i) pos1"
        by (simp add: Cons_nth_drop_Suc)
      moreover have "?v1 = pos1 ! i" using True by (simp add: nth_or_def)
      ultimately show ?thesis using res rec by simp
    next
      case False
      then show ?thesis using res by simp
    qed
  qed
qed

lemma gib_upper:
  assumes "drop i p1 < drop i p2"
    and "\<exists>j. i \<le> j \<and> j \<le> 128 \<and> room_at p1 p2 j"
    and "\<forall>c \<in> set p1. - (2 ^ 53) \<le> c \<and> c \<le> 2 ^ 53"
    and "\<forall>c \<in> set p2. 0 \<le> c \<and> c \<le> 2 ^ 53"
    and "last p2 \<noteq> 0"
  shows "generateIdentifierBetween_loop p1 p2 i < drop i p2"
  using assms
proof (induction p1 p2 i rule: generateIdentifierBetween_loop.induct)
  case (1 pos1 pos2 i)
  have i2: "i < length pos2" using 1(2) by (cases "i < length pos2") auto
  then have d2: "drop i pos2 = pos2 ! i # drop (Suc i) pos2"
    by (simp add: Cons_nth_drop_Suc)
  have v2: "nth_or pos2 i BASE = pos2 ! i" using i2 by (simp add: nth_or_def)
  have nn: "0 \<le> pos2 ! i" "pos2 ! i \<le> 2 ^ 53" using 1(5) i2 by simp_all
  let ?v1 = "nth_or pos1 i 0"
  have b1: "\<bar>?v1\<bar> \<le> 2 ^ 53"
    using nth_or_bounds [OF 1(4), of 0 i] by (simp add: abs_le_iff)
  have test: "round_double (pos2 ! i - ?v1) > 1 \<longleftrightarrow> pos2 ! i - ?v1 > 1"
    using b1 nn by (intro midpoint_test) simp_all
  show ?case
  proof (cases "pos2 ! i - ?v1 > 1")
    case gap: True
    have "round_double (?v1 + (round_double (pos2 ! i - ?v1) + 1) div 2) < pos2 ! i"
      using midpoint_between [of ?v1 "pos2 ! i"] b1 nn gap by simp
    then show ?thesis
      using gap test d2 v2 by (subst generateIdentifierBetween_loop.simps) (simp add: Let_def)
  next
    case nogap: False
    then have "\<not> room_at pos1 pos2 i" using test v2 by (simp add: room_at_def)
    then have later: "\<exists>j. i + 1 \<le> j \<and> j \<le> 128 \<and> room_at pos1 pos2 j"
      using 1(3) by (metis Suc_eq_plus1 Suc_leI le_neq_implies_less)
    then have nocap: "\<not> i + 1 > 128" by auto
    have res: "generateIdentifierBetween_loop pos1 pos2 i =
                 ?v1 # generateIdentifierBetween_loop pos1 pos2 (i + 1)"
      using nogap test v2 nocap
      by (subst generateIdentifierBetween_loop.simps) (simp add: Let_def)
    show ?thesis
    proof (cases "?v1 < pos2 ! i")
      case True
      then show ?thesis using res d2 by simp
    next
      case False
      have rest: "drop (i + 1) pos1 < drop (i + 1) pos2"
      proof (cases "i < length pos1")
        case True
        then have "drop i pos1 = pos1 ! i # drop (Suc i) pos1"
          by (simp add: Cons_nth_drop_Suc)
        moreover have "?v1 = pos1 ! i" using True by (simp add: nth_or_def)
        ultimately show ?thesis using 1(2) d2 False by auto
      next
        case short: False
        then have z: "?v1 = 0" by (simp add: nth_or_def)
        then have "pos2 ! i = 0" using False nn by simp
        moreover have "last pos2 = pos2 ! (length pos2 - 1)"
          using i2 by (cases pos2 rule: rev_cases) (auto simp add: nth_append)
        ultimately have "i \<noteq> length pos2 - 1" using 1(6) by auto
        then have "Suc i < length pos2" using i2 by simp
        then have "drop (Suc i) pos2 \<noteq> []" by simp
        moreover have "drop (Suc i) pos1 = []" using short by simp
        ultimately show ?thesis by (cases "drop (Suc i) pos2") auto
      qed
      have eq: "?v1 = pos2 ! i"
      proof (cases "i < length pos1")
        case True
        then have "drop i pos1 = pos1 ! i # drop (Suc i) pos1"
          by (simp add: Cons_nth_drop_Suc)
        moreover have "?v1 = pos1 ! i" using True by (simp add: nth_or_def)
        ultimately show ?thesis using 1(2) d2 False by auto
      next
        case short: False
        then show ?thesis using False nn by (simp add: nth_or_def)
      qed
      have "generateIdentifierBetween_loop pos1 pos2 (i + 1) < drop (i + 1) pos2"
        using 1(1) [OF refl refl refl _ _ rest later 1(4) 1(5) 1(6)] nogap test v2 nocap by simp
      then show ?thesis using res d2 eq by simp
    qed
  qed
qed

lemma finds_room_iff: "finds_room p1 p2 \<longleftrightarrow> (\<exists>j. 0 \<le> j \<and> j \<le> 128 \<and> room_at p1 p2 j)"
proof -
  have "\<And>x::nat. x < 129 \<longleftrightarrow> x \<le> 128" by arith
  then show ?thesis by (simp add: finds_room_def list_ex_iff Bex_def)
qed

lemma generateIdentifierBetween_between:
  assumes "before < after"
    and "\<forall>c \<in> set before. - (2 ^ 53) \<le> c \<and> c \<le> 2 ^ 53"
    and "\<forall>c \<in> set after. 0 \<le> c \<and> c \<le> 2 ^ 53"
    and "last after \<noteq> 0"
    and "finds_room before after"
  shows "before < generateIdentifierBetween before after \<and>
         generateIdentifierBetween before after < after"
proof -
  have r: "\<exists>j. 0 \<le> j \<and> j \<le> 128 \<and> room_at before after j"
    using assms(5) by (simp only: finds_room_iff)
  show ?thesis
    using gib_lower [OF r assms(2,3)] gib_upper [of 0 before after, OF _ r assms(2,3,4)] assms(1)
    by (simp add: generateIdentifierBetween_def)
qed
section \<open>Sorting and the binary search of remoteInsert\<close>

lemma copy_char_id [simp]: "copy_char c = c"
  by (cases "attributes c") (simp_all add: copy_char_def)

lemma copy_char_eq_id [simp]: "copy_char = id"
  by (rule ext) simp

lemma get_state_id [simp]: "get_state cs = cs"
  by (simp add: get_state_def)

lemma comparePositions_le [simp]: "comparePositions coll a b \<le> 0 \<longleftrightarrow> order_key coll a \<le> order_key coll b"
  by (auto simp add: comparePositions_key)

lemma insert_sorted_insort: "insert_sorted coll c ds = insort_key (order_key coll) c ds"
  by (induction ds) simp_all

lemma sort_chars_sort_key: "sort_chars coll cs = sort_key (order_key coll) cs"
  by (induction cs) (simp_all add: sort_chars_def insert_sorted_insort)

lemma loadState_Some: "loadState coll (Some cs) = sort_key (order_key coll) cs"
  by (simp add: loadState_def sort_chars_sort_key)

lemma loadState_None [simp]: "loadState coll None = []"
  by (simp add: loadState_def sort_chars_def)

lemma sorted_chars_loadState: "sorted_chars coll (loadState coll st)"
  by (cases st) (simp_all add: sorted_chars_def loadState_Some)

lemma loadState_sorted_id: "sorted_chars coll cs \<Longrightarrow> loadState coll (Some cs) = cs"
  by (simp add: sorted_chars_def loadState_Some sort_key_id_if_sorted)

lemma remoteInsert_loop_sorted:
  "sorted (map (order_key coll) cs) \<Longrightarrow> low \<le> high \<Longrightarrow> high \<le> length cs \<Longrightarrow>
   (\<forall>j<low. order_key coll (cs ! j) < order_key coll c) \<Longrightarrow>
   (\<forall>j. high \<le> j \<and> j < length cs \<longrightarrow> order_key coll c < order_key coll (cs ! j)) \<Longrightarrow>
   (case remoteInsert_loop coll cs c low high of
      None \<Rightarrow> order_key coll c \<in> order_key coll ` set cs
    | Some l \<Rightarrow> l \<le> length cs \<and> (\<forall>j<l. order_key coll (cs ! j) < order_key coll c) \<and>
               (\<forall>j. l \<le> j \<and> j < length cs \<longrightarrow> order_key coll c < order_key coll (cs ! j)))"
proof (induction coll cs c low high rule: remoteInsert_loop.induct)
  case (1 coll chars c low high)
  show ?case
  proof (cases "low < high")
    case False
    then have "low = high" using 1(4) by simp
    then show ?thesis
      using 1(5,6,7) by (subst remoteInsert_loop.simps) simp
  next
    case True
    define mid where "mid = (low + high) div 2"
    have mid: "low \<le> mid" "mid < high" using True by (simp_all add: mid_def)
    then have midlen: "mid < length chars" using 1(5) by simp
    have mono: "\<And>i j. i \<le> j \<Longrightarrow> j < length chars \<Longrightarrow> order_key coll (chars ! i) \<le> order_key coll (chars ! j)"
      using 1(3) by (simp add: sorted_iff_nth_mono)
    consider (lt) "order_key coll (chars ! mid) < order_key coll c"
      | (gt) "order_key coll c < order_key coll (chars ! mid)"
      | (eq) "order_key coll (chars ! mid) = order_key coll c"
      by (meson less_linear)
    then show ?thesis
    proof cases
      case lt
      have below: "\<forall>j<mid + 1. order_key coll (chars ! j) < order_key coll c"
      proof (intro allI impI)
        fix j assume "j < mid + 1"
        then have "order_key coll (chars ! j) \<le> order_key coll (chars ! mid)"
          using mono [of j mid] midlen by simp
        then show "order_key coll (chars ! j) < order_key coll c" using lt by simp
      qed
      have "remoteInsert_loop coll chars c low high = remoteInsert_loop coll chars c (mid + 1) high"
        using True lt by (subst remoteInsert_loop.simps) (simp add: mid_def Let_def)
      moreover have "case remoteInsert_loop coll chars c (mid + 1) high of
          None \<Rightarrow> order_key coll c \<in> order_key coll ` set chars
        | Some l \<Rightarrow> l \<le> length chars \<and> (\<forall>j<l. order_key coll (chars ! j) < order_key coll c) \<and>
               (\<forall>j. l \<le> j \<and> j < length chars \<longrightarrow> order_key coll c < order_key coll (chars ! j))"
        using 1(1) [OF True mid_def refl _ 1(3) _ 1(5) below 1(7)] lt mid by simp
      ultimately show ?thesis by simp
    next
      case gt
      have above: "\<forall>j. mid \<le> j \<and> j < length chars \<longrightarrow> order_key coll c < order_key coll (chars ! j)"
      proof (intro allI impI)
        fix j assume "mid \<le> j \<and> j < length chars"
        then have "order_key coll (chars ! mid) \<le> order_key coll (chars ! j)"
          using mono [of mid j] by simp
        then show "order_key coll c < order_key coll (chars ! j)" using gt by simp
      qed
      have ngt: "\<not> order_key coll (chars ! mid) < order_key coll c" using gt by simp
      have "remoteInsert_loop coll chars c low high = remoteInsert_loop coll chars c low mid"
        using True gt ngt by (subst remoteInsert_loop.simps) (simp add: mid_def Let_def)
      moreover have "case remoteInsert_loop coll chars c low mid of
          None \<Rightarrow> order_key coll c \<in> order_key coll ` set chars
        | Some l \<Rightarrow> l \<le> length chars \<and> (\<forall>j<l. order_key coll (chars ! j) < order_key coll c) \<and>
               (\<forall>j. l \<le> j \<and> j < length chars \<longrightarrow> order_key coll c < order_key coll (chars ! j))"
        using 1(2) [OF True mid_def refl _ _ 1(3) _ _ 1(6) above] gt ngt mid midlen by simp
      ultimately show ?thesis by simp
    next
      case eq
      have "remoteInsert_loop coll chars c low high = None"
        using True eq by (subst remoteInsert_loop.simps) (simp add: mid_def Let_def)
      moreover have "order_key coll c \<in> order_key coll ` set chars"
        using eq midlen by (metis imageI nth_mem)
      ultimately show ?thesis by simp
    qed
  qed
qed

section \<open>What remoteInsert coll and remoteDelete do\<close>

lemma remoteInsert_loop_whole:
  assumes "sorted_chars coll cs"
  shows "case remoteInsert_loop coll cs c 0 (length cs) of
      None \<Rightarrow> order_key coll c \<in> order_key coll ` set cs
    | Some l \<Rightarrow> l \<le> length cs \<and> (\<forall>j<l. order_key coll (cs ! j) < order_key coll c) \<and>
               (\<forall>j. l \<le> j \<and> j < length cs \<longrightarrow> order_key coll c < order_key coll (cs ! j))"
  by (rule remoteInsert_loop_sorted) (use assms in \<open>auto simp add: sorted_chars_def\<close>)

lemma remoteInsert_present:
  assumes "sorted_chars coll cs" and "order_key coll c \<in> order_key coll ` set cs"
  shows "remoteInsert coll c cs = (cs, None)"
proof (cases "remoteInsert_loop coll cs c 0 (length cs)")
  case None
  then show ?thesis by (simp add: remoteInsert_def)
next
  case (Some l)
  from assms(2) obtain j where j: "j < length cs" "order_key coll (cs ! j) = order_key coll c"
    by (metis imageE in_set_conv_nth)
  have "(\<forall>j<l. order_key coll (cs ! j) < order_key coll c) \<and>
        (\<forall>j. l \<le> j \<and> j < length cs \<longrightarrow> order_key coll c < order_key coll (cs ! j))"
    using remoteInsert_loop_whole [OF assms(1), of c] Some by simp
  moreover have "j < l \<or> l \<le> j" by arith
  ultimately have False using j by (metis less_irrefl)
  then show ?thesis ..
qed

lemma remoteInsert_absent:
  assumes "sorted_chars coll cs" and "order_key coll c \<notin> order_key coll ` set cs"
  shows "\<exists>l. remoteInsert coll c cs = (take l cs @ c # drop l cs, Some l) \<and> l \<le> length cs \<and>
             (\<forall>j<l. order_key coll (cs ! j) < order_key coll c) \<and>
             (\<forall>j. l \<le> j \<and> j < length cs \<longrightarrow> order_key coll c < order_key coll (cs ! j))"
proof (cases "remoteInsert_loop coll cs c 0 (length cs)")
  case None
  then have "order_key coll c \<in> order_key coll ` set cs"
    using remoteInsert_loop_whole [OF assms(1), of c] by simp
  then show ?thesis using assms(2) by simp
next
  case (Some l)
  then show ?thesis
    using remoteInsert_loop_whole [OF assms(1), of c]
    by (simp add: remoteInsert_def)
qed

lemma sorted_chars_splice_in:
  assumes "sorted_chars coll cs" and "l \<le> length cs"
    and "\<forall>j<l. order_key coll (cs ! j) < order_key coll c"
    and "\<forall>j. l \<le> j \<and> j < length cs \<longrightarrow> order_key coll c < order_key coll (cs ! j)"
  shows "sorted_chars coll (take l cs @ c # drop l cs)"
proof -
  have s: "sorted (map (order_key coll) (take l cs) @ map (order_key coll) (drop l cs))"
    using assms(1) by (simp add: sorted_chars_def flip: map_append)
  have a: "\<forall>x \<in> set (take l cs). order_key coll x < order_key coll c"
    using assms(2,3) by (auto simp add: in_set_conv_nth)
  have b: "\<forall>x \<in> set (drop l cs). order_key coll c < order_key coll x"
    using assms(2,4) by (auto simp add: in_set_conv_nth)
  show ?thesis
    using s a b unfolding sorted_chars_def
    by (auto simp add: sorted_append less_imp_le)
qed

lemma distinct_keys_splice_in:
  assumes "distinct_keys cs" and "char_key c \<notin> char_key ` set cs"
  shows "distinct_keys (take l cs @ c # drop l cs)"
proof -
  have "distinct (map char_key (take l cs) @ map char_key (drop l cs))"
    using assms(1) by (simp add: distinct_keys_def flip: map_append)
  moreover have "char_key c \<notin> char_key ` set (take l cs)" "char_key c \<notin> char_key ` set (drop l cs)"
    using assms(2) by (auto dest: in_set_takeD in_set_dropD)
  ultimately show ?thesis by (auto simp add: distinct_keys_def)
qed

lemma untied_splice_in:
  assumes "untied coll cs" and "order_key coll c \<notin> order_key coll ` set cs"
  shows "untied coll (take l cs @ c # drop l cs)"
proof -
  have "distinct (map (order_key coll) (take l cs) @ map (order_key coll) (drop l cs))"
    using assms(1) by (simp add: untied_def flip: map_append)
  moreover have "order_key coll c \<notin> order_key coll ` set (take l cs)"
    "order_key coll c \<notin> order_key coll ` set (drop l cs)"
    using assms(2) by (auto dest: in_set_takeD in_set_dropD)
  ultimately show ?thesis by (auto simp add: untied_def)
qed

lemma set_splice_in: "set (take l cs @ c # drop l cs) = insert c (set cs)"
proof -
  have "set (take l cs) \<union> set (drop l cs) = set cs"
    by (metis append_take_drop_id set_append)
  then show ?thesis by auto
qed

lemma sorted_chars_remoteInsert: "sorted_chars coll cs \<Longrightarrow> sorted_chars coll (fst (remoteInsert coll c cs))"
proof (cases "order_key coll c \<in> order_key coll ` set cs")
  case True
  assume "sorted_chars coll cs"
  then show ?thesis using remoteInsert_present [OF _ True] by simp
next
  case False
  assume s: "sorted_chars coll cs"
  from remoteInsert_absent [OF s False] obtain l where
    "remoteInsert coll c cs = (take l cs @ c # drop l cs, Some l)" "l \<le> length cs"
    "\<forall>j<l. order_key coll (cs ! j) < order_key coll c"
    "\<forall>j. l \<le> j \<and> j < length cs \<longrightarrow> order_key coll c < order_key coll (cs ! j)"
    by blast
  then show ?thesis using sorted_chars_splice_in [OF s] by simp
qed

lemma key_absent_if_untied:
  "order_key coll c \<notin> order_key coll ` set cs \<Longrightarrow> char_key c \<notin> char_key ` set cs"
  by (metis char_key_sort_key imageE imageI)

lemma distinct_keys_remoteInsert:
  "sorted_chars coll cs \<Longrightarrow> distinct_keys cs \<Longrightarrow> distinct_keys (fst (remoteInsert coll c cs))"
proof (cases "order_key coll c \<in> order_key coll ` set cs")
  case True
  assume "sorted_chars coll cs" "distinct_keys cs"
  then show ?thesis using remoteInsert_present [OF _ True] by simp
next
  case False
  assume s: "sorted_chars coll cs" and d: "distinct_keys cs"
  from remoteInsert_absent [OF s False] obtain l where
    "remoteInsert coll c cs = (take l cs @ c # drop l cs, Some l)" by blast
  then show ?thesis using distinct_keys_splice_in [OF d key_absent_if_untied [OF False]] by simp
qed

lemma untied_remoteInsert:
  "sorted_chars coll cs \<Longrightarrow> untied coll cs \<Longrightarrow> untied coll (fst (remoteInsert coll c cs))"
proof (cases "order_key coll c \<in> order_key coll ` set cs")
  case True
  assume "sorted_chars coll cs" "untied coll cs"
  then show ?thesis using remoteInsert_present [OF _ True] by simp
next
  case False
  assume s: "sorted_chars coll cs" and d: "untied coll cs"
  from remoteInsert_absent [OF s False] obtain l where
    "remoteInsert coll c cs = (take l cs @ c # drop l cs, Some l)" by blast
  then show ?thesis using untied_splice_in [OF d False] by simp
qed

lemma set_remoteInsert:
  "sorted_chars coll cs \<Longrightarrow>
   set (fst (remoteInsert coll c cs)) = (if order_key coll c \<in> order_key coll ` set cs then set cs else insert c (set cs))"
proof (cases "order_key coll c \<in> order_key coll ` set cs")
  case True
  assume "sorted_chars coll cs"
  then show ?thesis using remoteInsert_present [OF _ True] True by simp
next
  case False
  assume "sorted_chars coll cs"
  from remoteInsert_absent [OF this False] obtain l where
    "remoteInsert coll c cs = (take l cs @ c # drop l cs, Some l)" by blast
  then have "fst (remoteInsert coll c cs) = take l cs @ c # drop l cs" by simp
  then show ?thesis using False set_splice_in [of l cs c] by (simp only: if_False)
qed

subsection \<open>findIndex\<close>

lemma findIndex_None: "findIndex P xs = None \<longleftrightarrow> (\<forall>x \<in> set xs. \<not> P x)"
  by (induction xs) auto

lemma findIndex_Some:
  "findIndex P xs = Some i \<Longrightarrow> i < length xs \<and> P (xs ! i) \<and> (\<forall>j<i. \<not> P (xs ! j))"
proof (induction xs arbitrary: i)
  case Nil
  then show ?case by simp
next
  case (Cons x xs)
  show ?case
  proof (cases "P x")
    case True
    then show ?thesis using Cons.prems by simp
  next
    case False
    then obtain k where k: "findIndex P xs = Some k" "i = Suc k"
      using Cons.prems by auto
    from Cons.IH [OF k(1)] show ?thesis
      using False k(2) by (auto simp add: less_Suc_eq_0_disj)
  qed
qed

lemma same_key_iff [simp]: "same_key pos site c \<longleftrightarrow> char_key c = (pos, site)"
  by (auto simp add: same_key_def compareArrays_lex char_key_def)

subsection \<open>remoteDelete\<close>

text \<open>The comparison made inside the binary search of \<open>remoteDelete\<close>.\<close>

lemma delete_cmp:
  "(if compareArrays (position c) pos \<noteq> 0 then compareArrays (position c) pos
    else localeCompare coll (siteId c) site) =
   (if order_key coll c < (pos, coll site) then -1
    else if (pos, coll site) < order_key coll c then 1 else 0)"
  by (auto simp add: compareArrays_lex localeCompare_def order_key_def)

lemma remoteDelete_loop_step:
  "low \<le> high \<Longrightarrow>
   remoteDelete_loop coll chars pos site low high =
     (if order_key coll (chars ! nat ((low + high) div 2)) < (pos, coll site)
      then remoteDelete_loop coll chars pos site ((low + high) div 2 + 1) high
      else if (pos, coll site) < order_key coll (chars ! nat ((low + high) div 2))
      then remoteDelete_loop coll chars pos site low ((low + high) div 2 - 1)
      else Some (nat ((low + high) div 2)))"
  by (subst remoteDelete_loop.simps) (simp add: Let_def delete_cmp)

lemma remoteDelete_loop_Some:
  "0 \<le> low \<Longrightarrow> high < int (length cs) \<Longrightarrow>
   remoteDelete_loop coll cs pos site low high = Some m \<Longrightarrow>
   m < length cs \<and> tied coll pos site (cs ! m)"
proof (induction coll cs pos site low high rule: remoteDelete_loop.induct)
  case (1 coll chars pos site low high)
  show ?case
  proof (cases "low \<le> high")
    case False
    then show ?thesis using 1(5) by (subst (asm) remoteDelete_loop.simps) simp
  next
    case True
    define mid where "mid = (low + high) div 2"
    have mid: "low \<le> mid" "mid \<le> high" using True by (simp_all add: mid_def)
    define cmp where "cmp = (if compareArrays (position (chars ! nat mid)) pos \<noteq> 0
        then compareArrays (position (chars ! nat mid)) pos
        else localeCompare coll (siteId (chars ! nat mid)) site)"
    have step: "remoteDelete_loop coll chars pos site low high =
       (if cmp < 0 then remoteDelete_loop coll chars pos site (mid + 1) high
        else if cmp > 0 then remoteDelete_loop coll chars pos site low (mid - 1)
        else Some (nat mid))"
      using True by (subst remoteDelete_loop.simps) (simp add: mid_def cmp_def Let_def)
    consider (lt) "cmp < 0" | (gt) "cmp > 0" | (eq) "cmp = 0" by linarith
    then show ?thesis
    proof cases
      case lt
      then have r: "remoteDelete_loop coll chars pos site ((low + high) div 2 + 1) high = Some m"
        using step 1(5) by (simp add: mid_def)
      have c: "(if compareArrays (position (chars ! nat ((low + high) div 2))) pos \<noteq> 0
        then compareArrays (position (chars ! nat ((low + high) div 2))) pos
        else localeCompare coll (siteId (chars ! nat ((low + high) div 2))) site) < 0"
        using lt unfolding cmp_def mid_def .
      have "0 \<le> (low + high) div 2 + 1" using mid 1(3) by (simp add: mid_def)
      from 1(1) [OF True refl refl refl refl c this 1(4) r] show ?thesis .
    next
      case gt
      then have r: "remoteDelete_loop coll chars pos site low ((low + high) div 2 - 1) = Some m"
        using step 1(5) by (simp add: mid_def)
      have c: "\<not> (if compareArrays (position (chars ! nat ((low + high) div 2))) pos \<noteq> 0
        then compareArrays (position (chars ! nat ((low + high) div 2))) pos
        else localeCompare coll (siteId (chars ! nat ((low + high) div 2))) site) < 0"
        "(if compareArrays (position (chars ! nat ((low + high) div 2))) pos \<noteq> 0
        then compareArrays (position (chars ! nat ((low + high) div 2))) pos
        else localeCompare coll (siteId (chars ! nat ((low + high) div 2))) site) > 0"
        using gt unfolding cmp_def mid_def by simp_all
      have "(low + high) div 2 - 1 < int (length chars)" using mid 1(4) by (simp add: mid_def)
      from 1(2) [OF True refl refl refl refl c 1(3) this r] show ?thesis .
    next
      case eq
      then have m: "m = nat mid" using step 1(5) by simp
      have "order_key coll (chars ! nat mid) = (pos, coll site)"
        using eq unfolding cmp_def delete_cmp by (simp split: if_splits)
      then show ?thesis using m mid 1(3,4) by (auto simp add: tied_def)
    qed
  qed
qed

text \<open>On a sorted array the binary search misses no tied element.\<close>

lemma remoteDelete_loop_None:
  "sorted (map (order_key coll) cs) \<Longrightarrow> 0 \<le> low \<Longrightarrow> high < int (length cs) \<Longrightarrow>
   (\<forall>j. int j < low \<and> j < length cs \<longrightarrow> order_key coll (cs ! j) < (pos, coll site)) \<Longrightarrow>
   (\<forall>j. high < int j \<and> j < length cs \<longrightarrow> (pos, coll site) < order_key coll (cs ! j)) \<Longrightarrow>
   remoteDelete_loop coll cs pos site low high = None \<Longrightarrow>
   (\<forall>j<length cs. order_key coll (cs ! j) \<noteq> (pos, coll site))"
proof (induction coll cs pos site low high rule: remoteDelete_loop.induct)
  case (1 coll chars pos site low high)
  show ?case
  proof (cases "low \<le> high")
    case False
    show ?thesis
    proof (intro allI impI)
      fix j assume j: "j < length chars"
      have "int j < low \<or> high < int j" using False by linarith
      then show "order_key coll (chars ! j) \<noteq> (pos, coll site)"
        using 1(6,7) j by (metis less_irrefl)
    qed
  next
    case True
    define mid where "mid = (low + high) div 2"
    have mid: "low \<le> mid" "mid \<le> high" using True by (simp_all add: mid_def)
    have midlen: "nat mid < length chars" using mid 1(4,5) by linarith
    have mono: "\<And>i j. i \<le> j \<Longrightarrow> j < length chars \<Longrightarrow>
                  order_key coll (chars ! i) \<le> order_key coll (chars ! j)"
      using 1(3) by (simp add: sorted_iff_nth_mono)
    note step = remoteDelete_loop_step [OF True, of coll chars pos site, folded mid_def]
    have c0: "compareArrays (position (chars ! nat mid)) pos \<noteq> 0 \<Longrightarrow>
              (if compareArrays (position (chars ! nat mid)) pos \<noteq> 0
               then compareArrays (position (chars ! nat mid)) pos
               else localeCompare coll (siteId (chars ! nat mid)) site) =
              compareArrays (position (chars ! nat mid)) pos" by simp
    consider (lt) "order_key coll (chars ! nat mid) < (pos, coll site)"
      | (gt) "(pos, coll site) < order_key coll (chars ! nat mid)"
      | (eq) "order_key coll (chars ! nat mid) = (pos, coll site)"
      by (meson less_linear)
    then show ?thesis
    proof cases
      case lt
      have r: "remoteDelete_loop coll chars pos site ((low + high) div 2 + 1) high = None"
        using step lt 1(8) by (simp add: mid_def)
      have c: "(if compareArrays (position (chars ! nat ((low + high) div 2))) pos \<noteq> 0
        then compareArrays (position (chars ! nat ((low + high) div 2))) pos
        else localeCompare coll (siteId (chars ! nat ((low + high) div 2))) site) < 0"
        unfolding delete_cmp using lt by (simp add: mid_def)
      have lo: "0 \<le> (low + high) div 2 + 1" using mid 1(4) by (simp add: mid_def)
      have below: "\<forall>j. int j < (low + high) div 2 + 1 \<and> j < length chars \<longrightarrow>
                     order_key coll (chars ! j) < (pos, coll site)"
      proof (intro allI impI)
        fix j assume "int j < (low + high) div 2 + 1 \<and> j < length chars"
        then have "j \<le> nat mid" unfolding mid_def by linarith
        then have "order_key coll (chars ! j) \<le> order_key coll (chars ! nat mid)"
          using mono midlen by simp
        then show "order_key coll (chars ! j) < (pos, coll site)" using lt by simp
      qed
      from 1(1) [OF True refl refl refl refl c 1(3) lo 1(5) below 1(7) r] show ?thesis .
    next
      case gt
      then have nlt: "\<not> order_key coll (chars ! nat mid) < (pos, coll site)" by simp
      have r: "remoteDelete_loop coll chars pos site low ((low + high) div 2 - 1) = None"
        using step gt nlt 1(8) by (simp add: mid_def)
      have c: "\<not> (if compareArrays (position (chars ! nat ((low + high) div 2))) pos \<noteq> 0
        then compareArrays (position (chars ! nat ((low + high) div 2))) pos
        else localeCompare coll (siteId (chars ! nat ((low + high) div 2))) site) < 0"
        "(if compareArrays (position (chars ! nat ((low + high) div 2))) pos \<noteq> 0
        then compareArrays (position (chars ! nat ((low + high) div 2))) pos
        else localeCompare coll (siteId (chars ! nat ((low + high) div 2))) site) > 0"
        unfolding delete_cmp using gt nlt by (simp_all add: mid_def)
      have hi: "(low + high) div 2 - 1 < int (length chars)" using mid 1(5) by (simp add: mid_def)
      have above: "\<forall>j. (low + high) div 2 - 1 < int j \<and> j < length chars \<longrightarrow>
                     (pos, coll site) < order_key coll (chars ! j)"
      proof (intro allI impI)
        fix j assume j: "(low + high) div 2 - 1 < int j \<and> j < length chars"
        then have "nat mid \<le> j" unfolding mid_def by linarith
        then have "order_key coll (chars ! nat mid) \<le> order_key coll (chars ! j)"
          using mono j by simp
        then show "(pos, coll site) < order_key coll (chars ! j)" using gt by simp
      qed
      from 1(2) [OF True refl refl refl refl c 1(3) 1(4) hi 1(6) above r] show ?thesis .
    next
      case eq
      then have "remoteDelete_loop coll chars pos site low high = Some (nat mid)"
        using step by simp
      then show ?thesis using 1(8) by simp
    qed
  qed
qed

lemma remoteDelete_loop_complete:
  assumes "sorted_chars coll cs"
    and "remoteDelete_loop coll cs pos site 0 (int (length cs) - 1) = None"
  shows "\<forall>c \<in> set cs. \<not> tied coll pos site c"
proof -
  have "\<forall>j<length cs. order_key coll (cs ! j) \<noteq> (pos, coll site)"
    by (rule remoteDelete_loop_None [of coll cs 0 "int (length cs) - 1"])
       (use assms in \<open>auto simp add: sorted_chars_def\<close>)
  then show ?thesis by (auto simp add: tied_def in_set_conv_nth)
qed

lemma remoteDelete_absent:
  assumes "\<forall>c \<in> set cs. \<not> tied coll pos site c"
  shows "remoteDelete coll pos site cs = (cs, -1)"
proof -
  have "remoteDelete_loop coll cs pos site 0 (int (length cs) - 1) = None"
  proof (cases "remoteDelete_loop coll cs pos site 0 (int (length cs) - 1)")
    case (Some m)
    then have "m < length cs \<and> tied coll pos site (cs ! m)"
      using remoteDelete_loop_Some [of 0 "int (length cs) - 1" cs coll pos site m] by simp
    then show ?thesis using assms by (metis nth_mem)
  qed simp
  moreover have "findIndex (same_key pos site) cs = None"
    unfolding findIndex_None using assms same_key_tied by blast
  ultimately show ?thesis by (simp add: remoteDelete_def)
qed

lemma remoteDelete_present:
  assumes "(pos, site) \<in> char_key ` set cs"
  shows "\<exists>i. i < length cs \<and> tied coll pos site (cs ! i) \<and>
             remoteDelete coll pos site cs = (splice_out i cs, int i)"
proof (cases "remoteDelete_loop coll cs pos site 0 (int (length cs) - 1)")
  case (Some m)
  then have "m < length cs \<and> tied coll pos site (cs ! m)"
    using remoteDelete_loop_Some [of 0 "int (length cs) - 1" cs coll pos site m] by simp
  then show ?thesis using Some by (auto simp add: remoteDelete_def)
next
  case None
  obtain i where i: "findIndex (same_key pos site) cs = Some i"
    using assms by (cases "findIndex (same_key pos site) cs") (auto simp add: findIndex_None)
  from findIndex_Some [OF i] have "i < length cs" "same_key pos site (cs ! i)" by simp_all
  then show ?thesis
    using None i same_key_tied [of pos site "cs ! i" coll] by (auto simp add: remoteDelete_def)
qed

lemma remoteDelete_tied:
  assumes "sorted_chars coll cs" and "\<exists>c \<in> set cs. tied coll pos site c"
  shows "\<exists>i. i < length cs \<and> tied coll pos site (cs ! i) \<and>
             remoteDelete coll pos site cs = (splice_out i cs, int i)"
proof (cases "remoteDelete_loop coll cs pos site 0 (int (length cs) - 1)")
  case (Some m)
  then have "m < length cs \<and> tied coll pos site (cs ! m)"
    using remoteDelete_loop_Some [of 0 "int (length cs) - 1" cs coll pos site m] by simp
  then show ?thesis using Some by (auto simp add: remoteDelete_def)
next
  case None
  then have False using remoteDelete_loop_complete [OF assms(1)] assms(2) by blast
  then show ?thesis ..
qed

lemma splice_out_filter:
  assumes "distinct (map f xs)" and "i < length xs"
  shows "splice_out i xs = filter (\<lambda>x. f x \<noteq> f (xs ! i)) xs"
proof -
  have xs: "xs = take i xs @ xs ! i # drop (Suc i) xs"
    using assms(2) by (simp add: id_take_nth_drop)
  have d: "distinct (map f (take i xs) @ f (xs ! i) # map f (drop (Suc i) xs))"
    using assms(1) xs by (metis list.simps(9) map_append)
  then have "f (xs ! i) \<notin> f ` set (take i xs)" "f (xs ! i) \<notin> f ` set (drop (Suc i) xs)"
    by auto
  then have "\<forall>x \<in> set (take i xs). f x \<noteq> f (xs ! i)"
    "\<forall>x \<in> set (drop (Suc i) xs). f x \<noteq> f (xs ! i)"
    by (metis imageI)+
  then have "filter (\<lambda>x. f x \<noteq> f (xs ! i)) (take i xs) = take i xs"
    "filter (\<lambda>x. f x \<noteq> f (xs ! i)) (drop (Suc i) xs) = drop (Suc i) xs"
    by (simp_all add: filter_id_conv)
  then have "filter (\<lambda>x. f x \<noteq> f (xs ! i)) (take i xs @ xs ! i # drop (Suc i) xs) = splice_out i xs"
    by (simp add: splice_out_def)
  then show ?thesis using xs by simp
qed

text \<open>
  In a sorted array without ties \<open>remoteDelete\<close> removes the element tied with the
  key it is given, if there is one.
\<close>

lemma remoteDelete_filter:
  assumes "sorted_chars coll cs" and "untied coll cs"
  shows "fst (remoteDelete coll pos site cs) = filter (\<lambda>c. \<not> tied coll pos site c) cs"
proof (cases "\<exists>c \<in> set cs. tied coll pos site c")
  case False
  then have "filter (\<lambda>c. \<not> tied coll pos site c) cs = cs"
    by (simp add: filter_id_conv)
  then show ?thesis using remoteDelete_absent [of cs coll pos site] False by simp
next
  case True
  from remoteDelete_tied [OF assms(1) True] obtain i where
    i: "i < length cs" "tied coll pos site (cs ! i)"
    "remoteDelete coll pos site cs = (splice_out i cs, int i)" by blast
  have "splice_out i cs = filter (\<lambda>x. order_key coll x \<noteq> order_key coll (cs ! i)) cs"
    using splice_out_filter [of "order_key coll" cs i] assms(2) i(1) by (simp add: untied_def)
  then show ?thesis using i(2,3) by (simp add: tied_def)
qed

text \<open>
  In any array without two elements of one key, where every element tied with the key
  has that key, \<open>remoteDelete\<close> removes the element with the key.
\<close>

lemma remoteDelete_key_filter:
  assumes "distinct_keys cs"
    and "\<forall>c \<in> set cs. tied coll pos site c \<longrightarrow> char_key c = (pos, site)"
  shows "fst (remoteDelete coll pos site cs) = filter (\<lambda>c. char_key c \<noteq> (pos, site)) cs"
proof (cases "(pos, site) \<in> char_key ` set cs")
  case False
  then have "\<forall>c \<in> set cs. \<not> tied coll pos site c"
    using assms(2) by (metis imageI)
  moreover have "filter (\<lambda>c. char_key c \<noteq> (pos, site)) cs = cs"
    using False by (force simp add: filter_id_conv)
  ultimately show ?thesis using remoteDelete_absent [of cs coll pos site] by simp
next
  case True
  from remoteDelete_present [OF True, of coll] obtain i where
    i: "i < length cs" "tied coll pos site (cs ! i)"
    "remoteDelete coll pos site cs = (splice_out i cs, int i)" by blast
  have "char_key (cs ! i) = (pos, site)" using assms(2) i(1,2) by simp
  then show ?thesis
    using splice_out_filter [of char_key cs i] assms(1) i(1,3) by (simp add: distinct_keys_def)
qed

lemma sorted_chars_splice_out: "sorted_chars coll cs \<Longrightarrow> sorted_chars coll (splice_out i cs)"
proof (cases "i < length cs")
  case False
  then show "sorted_chars coll cs \<Longrightarrow> sorted_chars coll (splice_out i cs)"
    by (simp add: splice_out_def)
next
  case True
  assume "sorted_chars coll cs"
  moreover have "cs = take i cs @ cs ! i # drop (Suc i) cs"
    using True by (simp add: id_take_nth_drop)
  ultimately have "sorted (map (order_key coll) (take i cs) @ order_key coll (cs ! i) #
                     map (order_key coll) (drop (Suc i) cs))"
    unfolding sorted_chars_def by (metis list.simps(9) map_append)
  then show ?thesis
    by (auto simp add: sorted_chars_def splice_out_def sorted_append)
qed

lemma distinct_map_splice_out: "distinct (map f cs) \<Longrightarrow> distinct (map f (splice_out i cs))"
proof (cases "i < length cs")
  case False
  then show "distinct (map f cs) \<Longrightarrow> distinct (map f (splice_out i cs))"
    by (simp add: splice_out_def)
next
  case True
  assume "distinct (map f cs)"
  moreover have "cs = take i cs @ cs ! i # drop (Suc i) cs"
    using True by (simp add: id_take_nth_drop)
  ultimately have "distinct (map f (take i cs) @ f (cs ! i) # map f (drop (Suc i) cs))"
    by (metis list.simps(9) map_append)
  then show ?thesis
    by (auto simp add: splice_out_def)
qed

lemma distinct_keys_splice_out: "distinct_keys cs \<Longrightarrow> distinct_keys (splice_out i cs)"
  unfolding distinct_keys_def by (rule distinct_map_splice_out)

lemma untied_splice_out: "untied coll cs \<Longrightarrow> untied coll (splice_out i cs)"
  unfolding untied_def by (rule distinct_map_splice_out)

lemma remoteDelete_shape:
  "remoteDelete coll pos site cs = (cs, -1) \<or>
   (\<exists>i. remoteDelete coll pos site cs = (splice_out i cs, int i))"
proof (cases "\<exists>c \<in> set cs. same_key pos site c")
  case True
  then have "(pos, site) \<in> char_key ` set cs" by (force simp add: same_key_iff)
  then show ?thesis using remoteDelete_present [of pos site cs coll] by blast
next
  case False
  then have f: "findIndex (same_key pos site) cs = None" by (simp add: findIndex_None)
  show ?thesis
    by (cases "remoteDelete_loop coll cs pos site 0 (int (length cs) - 1)")
       (auto simp add: remoteDelete_def f)
qed

lemma sorted_chars_remoteDelete:
  "sorted_chars coll cs \<Longrightarrow> sorted_chars coll (fst (remoteDelete coll pos site cs))"
  using remoteDelete_shape [of coll pos site cs] by (auto simp add: sorted_chars_splice_out)

lemma distinct_keys_remoteDelete:
  "distinct_keys cs \<Longrightarrow> distinct_keys (fst (remoteDelete coll pos site cs))"
  using remoteDelete_shape [of coll pos site cs] by (auto simp add: distinct_keys_splice_out)

lemma untied_remoteDelete:
  "untied coll cs \<Longrightarrow> untied coll (fst (remoteDelete coll pos site cs))"
  using remoteDelete_shape [of coll pos site cs] by (auto simp add: untied_splice_out)
section \<open>The string keys of batchRemoteDelete\<close>

subsection \<open>Key strings\<close>

lemma of_char_digit_char: "d < 10 \<Longrightarrow> of_char (digit_char d) = 48 + d"
  by (simp add: digit_char_def take_bit_eq_mod)

lemma digit_char_inj: "a < 10 \<Longrightarrow> b < 10 \<Longrightarrow> digit_char a = digit_char b \<Longrightarrow> a = b"
proof -
  assume a: "a < 10" and b: "b < 10" and e: "digit_char a = digit_char b"
  then have "of_char (digit_char a) = (of_char (digit_char b) :: nat)" by simp
  then have "(48 + a) mod 256 = (48 + b) mod 256"
    by (simp add: digit_char_def take_bit_eq_mod)
  then show "a = b" using a b by simp
qed

lemma num_digits_nonempty: "num_digits n \<noteq> []"
  by (subst num_digits.simps) simp

lemma num_digits_set:
  "c \<in> set (num_digits n) \<Longrightarrow> 48 \<le> (of_char c :: nat) \<and> (of_char c :: nat) \<le> 57"
proof (induction n rule: num_digits.induct)
  case (1 n)
  show ?case
  proof (cases "n < 10")
    case True
    then have "c = digit_char n" using 1(2) by (subst (asm) num_digits.simps) simp
    then show ?thesis using True by (simp add: of_char_digit_char)
  next
    case False
    then have "c \<in> set (num_digits (n div 10)) \<or> c = digit_char (n mod 10)"
      using 1(2) by (subst (asm) num_digits.simps) auto
    then show ?thesis
    proof
      assume "c \<in> set (num_digits (n div 10))"
      then show ?thesis using 1(1) [OF False] by simp
    next
      assume "c = digit_char (n mod 10)"
      then show ?thesis by (simp add: of_char_digit_char)
    qed
  qed
qed

lemma num_digits_not:
  "CHR ''-'' \<notin> set (num_digits n)" "CHR '','' \<notin> set (num_digits n)" "CHR '':'' \<notin> set (num_digits n)"
  using num_digits_set [of "CHR ''-''" n] num_digits_set [of "CHR '',''" n]
    num_digits_set [of "CHR '':''" n] by auto

lemma num_digits_inj: "num_digits n = num_digits m \<Longrightarrow> n = m"
proof (induction n arbitrary: m rule: num_digits.induct)
  case (1 n)
  show ?case
  proof (cases "n < 10")
    case n: True
    then have dn: "num_digits n = [digit_char n]" by (subst num_digits.simps) simp
    show ?thesis
    proof (cases "m < 10")
      case True
      then have "num_digits m = [digit_char m]" by (subst num_digits.simps) simp
      then show ?thesis using dn 1(2) n True digit_char_inj by simp
    next
      case False
      then have "num_digits m = num_digits (m div 10) @ [digit_char (m mod 10)]"
        by (subst num_digits.simps) simp
      then show ?thesis using dn 1(2) num_digits_nonempty [of "m div 10"] by simp
    qed
  next
    case n: False
    then have dn: "num_digits n = num_digits (n div 10) @ [digit_char (n mod 10)]"
      by (subst num_digits.simps) simp
    show ?thesis
    proof (cases "m < 10")
      case True
      then have "num_digits m = [digit_char m]" by (subst num_digits.simps) simp
      then show ?thesis using dn 1(2) num_digits_nonempty [of "n div 10"] by simp
    next
      case False
      then have "num_digits m = num_digits (m div 10) @ [digit_char (m mod 10)]"
        by (subst num_digits.simps) simp
      then have "num_digits (n div 10) = num_digits (m div 10)"
        "digit_char (n mod 10) = digit_char (m mod 10)"
        using dn 1(2) by simp_all
      then have "n div 10 = m div 10" "n mod 10 = m mod 10"
        using 1(1) [OF n] digit_char_inj [of "n mod 10" "m mod 10"] by simp_all
      then show ?thesis by (metis div_mult_mod_eq)
    qed
  qed
qed

lemma number_toString_nonempty: "number_toString i \<noteq> []"
  by (simp add: number_toString_def num_digits_nonempty)

lemma number_toString_not:
  "CHR '','' \<notin> set (number_toString i)" "CHR '':'' \<notin> set (number_toString i)"
  by (simp_all add: number_toString_def num_digits_not)

lemma number_toString_inj: "number_toString i = number_toString j \<Longrightarrow> i = j"
proof -
  assume e: "number_toString i = number_toString j"
  have nd: "\<And>n. hd (num_digits n) \<noteq> CHR ''-''"
  proof -
    fix n
    have "hd (num_digits n) \<in> set (num_digits n)" using num_digits_nonempty by simp
    then show "hd (num_digits n) \<noteq> CHR ''-''" using num_digits_not(1) [of n] by metis
  qed
  show "i = j"
  proof (cases "i < 0")
    case i: True
    show ?thesis
    proof (cases "j < 0")
      case True
      then have "num_digits (nat (- i)) = num_digits (nat (- j))"
        using e i by (simp add: number_toString_def)
      then show ?thesis using num_digits_inj i True by fastforce
    next
      case False
      then have "hd (num_digits (nat j)) = CHR ''-''"
        using e i by (simp add: number_toString_def) (metis list.sel(1))
      then show ?thesis using nd by simp
    qed
  next
    case i: False
    show ?thesis
    proof (cases "j < 0")
      case True
      then have "hd (num_digits (nat i)) = CHR ''-''"
        using e i by (simp add: number_toString_def)
      then show ?thesis using nd by simp
    next
      case False
      then have "num_digits (nat i) = num_digits (nat j)"
        using e i by (simp add: number_toString_def)
      then show ?thesis using num_digits_inj i False by fastforce
    qed
  qed
qed

lemma append_Cons_first:
  "x \<notin> set xs \<Longrightarrow> x \<notin> set xs' \<Longrightarrow> xs @ x # ys = xs' @ x # ys' \<Longrightarrow> xs = xs' \<and> ys = ys'"
proof (induction xs arbitrary: xs')
  case Nil
  then show ?case by (cases xs') auto
next
  case (Cons a xs)
  then show ?case by (cases xs') auto
qed

lemma join_comma_Cons:
  "join_comma (s # ss) = s @ (if ss = [] then [] else CHR '','' # join_comma ss)"
  by (cases ss) simp_all

lemma join_comma_inj:
  "\<forall>s \<in> set ss. s \<noteq> [] \<and> CHR '','' \<notin> set s \<Longrightarrow>
   \<forall>t \<in> set ts. t \<noteq> [] \<and> CHR '','' \<notin> set t \<Longrightarrow>
   join_comma ss = join_comma ts \<Longrightarrow> ss = ts"
proof (induction ss arbitrary: ts)
  case Nil
  then show ?case by (cases ts) (auto simp add: join_comma_Cons)
next
  case (Cons s ss)
  show ?case
  proof (cases ts)
    case Nil
    then show ?thesis using Cons.prems by (auto simp add: join_comma_Cons)
  next
    case (Cons t ts')
    have s: "CHR '','' \<notin> set s" and t: "CHR '','' \<notin> set t"
      using Cons.prems(1,2) Cons by simp_all
    have e: "s @ (if ss = [] then [] else CHR '','' # join_comma ss) =
             t @ (if ts' = [] then [] else CHR '','' # join_comma ts')"
      using Cons.prems(3) Cons by (simp add: join_comma_Cons)
    show ?thesis
    proof (cases "ss = []")
      case ss: True
      show ?thesis
      proof (cases "ts' = []")
        case True
        then show ?thesis using e ss Cons by simp
      next
        case False
        then have "CHR '','' \<in> set s" using e ss by simp
        then show ?thesis using s by simp
      qed
    next
      case ss: False
      show ?thesis
      proof (cases "ts' = []")
        case True
        then have "CHR '','' \<in> set t" using e ss by (metis append_Nil2 in_set_conv_decomp)
        then show ?thesis using t by simp
      next
        case False
        then have "s = t \<and> join_comma ss = join_comma ts'"
          using e ss append_Cons_first [OF s t, of "join_comma ss" "join_comma ts'"] by simp
        then show ?thesis
          using Cons.IH [of ts'] Cons.prems(1,2) Cons by simp
      qed
    qed
  qed
qed

lemma join_comma_set: "set (join_comma ss) \<subseteq> insert (CHR '','') (\<Union> (set ` set ss))"
  by (induction ss rule: join_comma.induct) auto

lemma delKey_inj: "delKey s p = delKey s' p' \<longleftrightarrow> s = s' \<and> p = p'"
proof
  assume e: "delKey s p = delKey s' p'"
  let ?j = "join_comma (map number_toString p)" and ?j' = "join_comma (map number_toString p')"
  have nc: "\<And>q. CHR '':'' \<notin> set (join_comma (map number_toString q))"
  proof
    fix q assume "CHR '':'' \<in> set (join_comma (map number_toString q))"
    then have "CHR '':'' \<in> insert (CHR '','') (\<Union> (set ` set (map number_toString q)))"
      using join_comma_set by blast
    then obtain i where "CHR '':'' \<in> set (number_toString i)" by auto
    then show False using number_toString_not(2) [of i] by simp
  qed
  have "rev ?j @ CHR '':'' # rev s = rev ?j' @ CHR '':'' # rev s'"
    using e by (simp add: delKey_def) (metis rev.simps(2) rev_append append_assoc append_Cons append_Nil)
  moreover have "CHR '':'' \<notin> set (rev ?j)" "CHR '':'' \<notin> set (rev ?j')"
    using nc [of p] nc [of p'] by simp_all
  ultimately have "rev ?j = rev ?j' \<and> rev s = rev s'"
    using append_Cons_first [of "CHR '':''" "rev ?j" "rev ?j'" "rev s" "rev s'"] by blast
  then have j: "?j = ?j'" and s: "s = s'" by simp_all
  have pc: "\<And>q. \<forall>t \<in> set (map number_toString q). t \<noteq> [] \<and> CHR '','' \<notin> set t"
    using number_toString_nonempty number_toString_not(1) by auto
  have "map number_toString p = map number_toString p'"
    using join_comma_inj [OF pc pc j] .
  then have "p = p'"
    using number_toString_inj by (metis inj_onI inj_map_eq_map)
  then show "s = s' \<and> p = p'" using s by simp
qed simp

section \<open>Bulk deletion, formatting and the calls\<close>

subsection \<open>The compaction pass\<close>

lemma compact_loop_filter:
  "w \<le> i \<Longrightarrow> i \<le> length cs \<Longrightarrow> compact_loop D cs i w d = (cs', w', d') \<Longrightarrow>
   length cs' = length cs \<and> w' \<le> length cs \<and>
   take w' cs' = take w cs @ filter (\<lambda>c. delKey (siteId c) (position c) \<notin> D) (drop i cs) \<and>
   d' = d + length (filter (\<lambda>c. delKey (siteId c) (position c) \<in> D) (drop i cs))"
proof (induction D cs i w d rule: compact_loop.induct)
  case (1 D chars i w d)
  show ?case
  proof (cases "i < length chars")
    case False
    then have "(cs', w', d') = (chars, w, d)"
      using 1(5) by (subst (asm) compact_loop.simps) simp
    then show ?thesis using False 1(3,4) by simp
  next
    case True
    then have dr: "drop i chars = chars ! i # drop (Suc i) chars"
      by (simp add: Cons_nth_drop_Suc)
    show ?thesis
    proof (cases "delKey (siteId (chars ! i)) (position (chars ! i)) \<notin> D")
      case keep: True
      let ?cs2 = "if w \<noteq> i then chars[w := chars ! i] else chars"
      have cs2: "?cs2 = chars[w := chars ! i]" by simp
      have r: "compact_loop D ?cs2 (i + 1) (w + 1) d = (cs', w', d')"
        using 1(5) True keep by (subst (asm) compact_loop.simps) (simp add: Let_def)
      have wl: "w < length chars" using 1(3) True by simp
      have "length cs' = length ?cs2 \<and> w' \<le> length ?cs2 \<and>
        take w' cs' = take (w + 1) ?cs2 @ filter (\<lambda>c. delKey (siteId c) (position c) \<notin> D) (drop (i + 1) ?cs2) \<and>
        d' = d + length (filter (\<lambda>c. delKey (siteId c) (position c) \<in> D) (drop (i + 1) ?cs2))"
        using 1(1) [OF True refl keep _ _ r] 1(3) True by simp
      moreover have "take (w + 1) ?cs2 = take w chars @ [chars ! i]"
        using wl by (simp add: take_Suc_conv_app_nth)
      moreover have "drop (i + 1) ?cs2 = drop (Suc i) chars"
        using 1(3) by simp
      moreover have "length ?cs2 = length chars" by simp
      ultimately show ?thesis using dr keep by simp
    next
      case del: False
      have r: "compact_loop D chars (i + 1) w (d + 1) = (cs', w', d')"
        using 1(5) True del by (subst (asm) compact_loop.simps) (simp add: Let_def)
      have "length cs' = length chars \<and> w' \<le> length chars \<and>
        take w' cs' = take w chars @ filter (\<lambda>c. delKey (siteId c) (position c) \<notin> D) (drop (i + 1) chars) \<and>
        d' = d + 1 + length (filter (\<lambda>c. delKey (siteId c) (position c) \<in> D) (drop (i + 1) chars))"
        using 1(2) [OF True refl del _ _ r] 1(3) True by simp
      then show ?thesis using dr del by simp
    qed
  qed
qed

lemma delKey_in_set: "delKey (siteId c) (position c) \<in> (\<lambda>(pos, site). delKey site pos) ` set ops \<longleftrightarrow> char_key c \<in> set ops"
  by (auto simp add: delKey_inj char_key_def image_iff split: prod.splits)

lemma batchRemoteDelete_filter:
  "batchRemoteDelete ops cs =
     (filter (\<lambda>c. char_key c \<notin> set ops) cs,
      length (filter (\<lambda>c. char_key c \<in> set ops) cs))"
proof (cases "ops = []")
  case True
  then show ?thesis by (simp add: batchRemoteDelete_def)
next
  case False
  let ?D = "set (map (\<lambda>(pos, site). delKey site pos) ops)"
  obtain cs' w' d' where r: "compact_loop ?D cs 0 0 0 = (cs', w', d')"
    by (metis prod_cases3)
  from compact_loop_filter [OF _ _ r]
  have l: "length cs' = length cs" and w: "w' \<le> length cs"
    and t: "take w' cs' = filter (\<lambda>c. delKey (siteId c) (position c) \<notin> ?D) cs"
    and d: "d' = length (filter (\<lambda>c. delKey (siteId c) (position c) \<in> ?D) cs)"
    by simp_all
  have "(if w' < length cs' then take w' cs' else cs') = take w' cs'"
    using l w by simp
  then have "batchRemoteDelete ops cs = (take w' cs', d')"
    using False r by (simp add: batchRemoteDelete_def)
  then show ?thesis using t d by (simp add: delKey_in_set)
qed

lemma sorted_chars_filter: "sorted_chars coll cs \<Longrightarrow> sorted_chars coll (filter P cs)"
  by (simp add: sorted_chars_def sorted_filter)

lemma distinct_keys_filter: "distinct_keys cs \<Longrightarrow> distinct_keys (filter P cs)"
  by (simp add: distinct_keys_def distinct_map_filter)

subsection \<open>Formatting keeps keys\<close>

lemma char_key_format_char [simp]: "char_key (format_char patch c) = char_key c"
  by (simp add: format_char_def char_key_def)

lemma map_char_key_update:
  "char_key c' = char_key (cs ! i) \<Longrightarrow> map char_key (cs[i := c']) = map char_key cs"
proof (cases "i < length cs")
  case True
  assume "char_key c' = char_key (cs ! i)"
  then have "map char_key (cs[i := c']) = (map char_key cs)[i := map char_key cs ! i]"
    using True by (simp add: map_update)
  then show ?thesis by simp
next
  case False
  then have "cs[i := c'] = cs" by (metis list_update_beyond not_less)
  then show ?thesis by simp
qed

lemma keys_localFormat: "map char_key (fst (localFormat index patch cs)) = map char_key cs"
  by (auto simp add: localFormat_def at_index_def map_char_key_update split: option.splits)

lemma keys_remoteFormat: "map char_key (remoteFormat pos site patch cs) = map char_key cs"
  by (auto simp add: remoteFormat_def map_char_key_update split: option.splits)

lemma order_key_format_char [simp]: "order_key coll (format_char patch c) = order_key coll c"
  by (simp add: format_char_def order_key_def)

lemma map_order_key_update:
  "order_key coll c' = order_key coll (cs ! i) \<Longrightarrow>
   map (order_key coll) (cs[i := c']) = map (order_key coll) cs"
proof (cases "i < length cs")
  case True
  assume "order_key coll c' = order_key coll (cs ! i)"
  then have "map (order_key coll) (cs[i := c']) =
             (map (order_key coll) cs)[i := map (order_key coll) cs ! i]"
    using True by (simp add: map_update)
  then show ?thesis by simp
next
  case False
  then have "cs[i := c'] = cs" by (metis list_update_beyond not_less)
  then show ?thesis by simp
qed

lemma order_keys_localFormat:
  "map (order_key coll) (fst (localFormat index patch cs)) = map (order_key coll) cs"
  by (auto simp add: localFormat_def at_index_def map_order_key_update split: option.splits)

lemma order_keys_remoteFormat:
  "map (order_key coll) (remoteFormat pos site patch cs) = map (order_key coll) cs"
  by (auto simp add: remoteFormat_def map_order_key_update split: option.splits)

subsection \<open>Every call keeps the sequence sorted\<close>

lemma sorted_chars_take_drop: "sorted_chars coll cs \<Longrightarrow> s \<le> e \<Longrightarrow> sorted_chars coll (take s cs @ drop e cs)"
proof -
  assume a: "sorted_chars coll cs" and le: "s \<le> e"
  have "cs = take s cs @ take (e - s) (drop s cs) @ drop e cs"
    using le by (metis append_take_drop_id drop_drop le_add_diff_inverse2)
  then have "sorted (map (order_key coll) (take s cs) @
                   map (order_key coll) (take (e - s) (drop s cs)) @ map (order_key coll) (drop e cs))"
    using a unfolding sorted_chars_def by (metis map_append)
  then show ?thesis by (auto simp add: sorted_chars_def sorted_append)
qed

lemma distinct_keys_take_drop: "distinct_keys cs \<Longrightarrow> s \<le> e \<Longrightarrow> distinct_keys (take s cs @ drop e cs)"
proof -
  assume a: "distinct_keys cs" and le: "s \<le> e"
  have "cs = take s cs @ take (e - s) (drop s cs) @ drop e cs"
    using le by (metis append_take_drop_id drop_drop le_add_diff_inverse2)
  then have "distinct (map char_key (take s cs) @ map char_key (take (e - s) (drop s cs)) @ map char_key (drop e cs))"
    using a unfolding distinct_keys_def by (metis map_append)
  then show ?thesis by (auto simp add: distinct_keys_def)
qed

lemma sorted_chars_run_call: "sorted_chars coll cs \<Longrightarrow> sorted_chars coll (run_call coll site call cs)"
proof (cases call)
  case (LocalInsert index v attrs)
  assume "sorted_chars coll cs"
  then show ?thesis using LocalInsert
    by (simp add: localInsert_def Let_def sorted_chars_remoteInsert)
next
  case (LocalDelete index)
  assume "sorted_chars coll cs"
  then show ?thesis using LocalDelete
    by (simp add: localDelete_def sorted_chars_remoteDelete split: option.splits)
next
  case (LocalBatchDelete s e)
  assume "sorted_chars coll cs"
  then show ?thesis using LocalBatchDelete sorted_chars_take_drop [of coll cs "nat s" "nat e"]
    by (auto simp add: localBatchDelete_def Let_def)
next
  case (LocalFormat index patch)
  assume "sorted_chars coll cs"
  then show ?thesis using LocalFormat by (simp add: sorted_chars_def order_keys_localFormat)
next
  case (RemoteInsert c)
  assume "sorted_chars coll cs"
  then show ?thesis using RemoteInsert by (simp add: sorted_chars_remoteInsert)
next
  case (RemoteDelete pos s)
  assume "sorted_chars coll cs"
  then show ?thesis using RemoteDelete by (simp add: sorted_chars_remoteDelete)
next
  case (BatchRemoteDelete ops)
  assume "sorted_chars coll cs"
  then show ?thesis using BatchRemoteDelete
    by (simp add: batchRemoteDelete_filter sorted_chars_filter)
next
  case (RemoteFormat pos s patch)
  assume "sorted_chars coll cs"
  then show ?thesis using RemoteFormat by (simp add: sorted_chars_def order_keys_remoteFormat)
next
  case (LoadState st)
  then show ?thesis by (simp add: sorted_chars_loadState)
qed

lemma reachable_sorted: "reachable coll site cs \<Longrightarrow> sorted_chars coll cs"
  by (induction rule: reachable.induct) (simp_all add: sorted_chars_def sorted_chars_run_call [unfolded sorted_chars_def])

lemma reachable_iff_sorted: "reachable coll site cs \<longleftrightarrow> sorted_chars coll cs"
proof
  assume "sorted_chars coll cs"
  then have "run_call coll site (LoadState (Some cs)) [] = cs"
    by (simp add: loadState_sorted_id)
  then show "reachable coll site cs"
    using reachable_call [OF reachable_init, of coll site "LoadState (Some cs)"] by simp
qed (rule reachable_sorted)

lemma distinct_keys_loadState: "distinct_keys (loadState coll (Some cs)) \<longleftrightarrow> distinct_keys cs"
proof -
  have "mset (loadState coll (Some cs)) = mset cs" by (simp add: loadState_Some)
  then have "mset (map char_key (loadState coll (Some cs))) = mset (map char_key cs)"
    by (simp only: mset_map)
  then show ?thesis unfolding distinct_keys_def by (rule mset_eq_imp_distinct_iff)
qed

lemma untied_filter: "untied coll cs \<Longrightarrow> untied coll (filter P cs)"
  by (simp add: untied_def distinct_map_filter)

section \<open>Uniqueness of sorted sequences and commuting calls\<close>

lemma distinct_keys_run_call:
  assumes "sorted_chars coll cs" and "distinct_keys cs" and "unique_snapshot call"
  shows "distinct_keys (run_call coll site call cs)"
proof (cases call)
  case (LocalInsert index v attrs)
  then show ?thesis using assms
    by (simp add: localInsert_def Let_def distinct_keys_remoteInsert)
next
  case (LocalDelete index)
  then show ?thesis using assms
    by (simp add: localDelete_def distinct_keys_remoteDelete split: option.splits)
next
  case (LocalBatchDelete s e)
  then show ?thesis using assms distinct_keys_take_drop [of cs "nat s" "nat e"]
    by (auto simp add: localBatchDelete_def Let_def)
next
  case (LocalFormat index patch)
  then show ?thesis using assms by (simp add: distinct_keys_def keys_localFormat)
next
  case (RemoteInsert c)
  then show ?thesis using assms by (simp add: distinct_keys_remoteInsert)
next
  case (RemoteDelete pos s)
  then show ?thesis using assms by (simp add: distinct_keys_remoteDelete)
next
  case (BatchRemoteDelete ops)
  then show ?thesis using assms by (simp add: batchRemoteDelete_filter distinct_keys_filter)
next
  case (RemoteFormat pos s patch)
  then show ?thesis using assms by (simp add: distinct_keys_def keys_remoteFormat)
next
  case (LoadState st)
  then show ?thesis using assms(3)
    by (cases st) (simp_all add: distinct_keys_loadState, simp add: distinct_keys_def)
qed

lemma sorted_untied_chars_unique:
  assumes "sorted_chars coll a" "untied coll a" "sorted_chars coll b" "untied coll b"
    "set a = set b"
  shows "a = b"
proof -
  have "set (map (order_key coll) a) = set (map (order_key coll) b)" using assms(5) by simp
  then have "map (order_key coll) a = map (order_key coll) b"
    using assms(1-4) unfolding sorted_chars_def untied_def
    by (rule_tac sorted_distinct_set_unique)
  moreover have "inj_on (order_key coll) (set a \<union> set b)"
    using assms(2,5) by (simp add: untied_def distinct_map)
  ultimately show ?thesis by (rule map_inj_on)
qed

lemma remoteDelete_twice:
  assumes "sorted_chars coll cs" and "untied coll cs"
  shows "fst (remoteDelete coll p s (fst (remoteDelete coll p s cs))) =
         fst (remoteDelete coll p s cs)"
proof -
  have "sorted_chars coll (fst (remoteDelete coll p s cs))"
    "untied coll (fst (remoteDelete coll p s cs))"
    using assms by (simp_all add: sorted_chars_remoteDelete untied_remoteDelete)
  then show ?thesis using assms by (simp add: remoteDelete_filter)
qed

lemma remoteDelete_commute:
  assumes "sorted_chars coll cs" and "untied coll cs"
  shows "fst (remoteDelete coll p s (fst (remoteDelete coll p' s' cs))) =
         fst (remoteDelete coll p' s' (fst (remoteDelete coll p s cs)))"
proof -
  have "sorted_chars coll (fst (remoteDelete coll p s cs))"
    "untied coll (fst (remoteDelete coll p s cs))"
    "sorted_chars coll (fst (remoteDelete coll p' s' cs))"
    "untied coll (fst (remoteDelete coll p' s' cs))"
    using assms by (simp_all add: sorted_chars_remoteDelete untied_remoteDelete)
  then show ?thesis using assms by (simp add: remoteDelete_filter conj_commute)
qed

lemma remoteDelete_remoteInsert_commute:
  assumes s: "sorted_chars coll cs" and d: "untied coll cs" and ne: "\<not> tied coll p q e"
  shows "fst (remoteDelete coll p q (fst (remoteInsert coll e cs))) =
         fst (remoteInsert coll e (fst (remoteDelete coll p q cs)))"
proof -
  let ?keep = "\<lambda>c. \<not> tied coll p q c"
  have si: "sorted_chars coll (fst (remoteInsert coll e cs))"
    and di: "untied coll (fst (remoteInsert coll e cs))"
    using s d by (simp_all add: sorted_chars_remoteInsert untied_remoteInsert)
  have l: "fst (remoteDelete coll p q (fst (remoteInsert coll e cs))) =
           filter ?keep (fst (remoteInsert coll e cs))"
    using si di by (rule remoteDelete_filter)
  have r0: "fst (remoteDelete coll p q cs) = filter ?keep cs"
    using s d by (rule remoteDelete_filter)
  have sf: "sorted_chars coll (filter ?keep cs)" and df: "untied coll (filter ?keep cs)"
    using s d by (simp_all add: sorted_chars_filter untied_filter)
  have mem: "order_key coll e \<in> order_key coll ` set (filter ?keep cs) \<longleftrightarrow>
             order_key coll e \<in> order_key coll ` set cs"
    using ne by (auto simp add: tied_def)
  have "set (filter ?keep (fst (remoteInsert coll e cs))) =
        set (fst (remoteInsert coll e (filter ?keep cs)))"
    using set_remoteInsert [OF s, of e] set_remoteInsert [OF sf, of e] mem ne by auto
  moreover have "sorted_chars coll (filter ?keep (fst (remoteInsert coll e cs)))"
    "untied coll (filter ?keep (fst (remoteInsert coll e cs)))"
    using si di by (simp_all add: sorted_chars_filter untied_filter)
  moreover have "sorted_chars coll (fst (remoteInsert coll e (filter ?keep cs)))"
    "untied coll (fst (remoteInsert coll e (filter ?keep cs)))"
    using sf df by (simp_all add: sorted_chars_remoteInsert untied_remoteInsert)
  ultimately have "filter ?keep (fst (remoteInsert coll e cs)) =
                   fst (remoteInsert coll e (filter ?keep cs))"
    by (rule_tac sorted_untied_chars_unique)
  then show ?thesis using l r0 by simp
qed

text \<open>
  Descriptors that are exact on an array: every element tied with a descriptor has the
  key the descriptor names.
\<close>

lemma fold_remoteDelete_filter:
  "distinct_keys cs \<Longrightarrow>
   \<forall>d \<in> set ops. \<forall>c \<in> set cs. tied coll (fst d) (snd d) c \<longrightarrow> char_key c = d \<Longrightarrow>
   fold (\<lambda>(p, s) acc. fst (remoteDelete coll p s acc)) ops cs =
     filter (\<lambda>c. char_key c \<notin> set ops) cs"
proof (induction ops arbitrary: cs)
  case Nil
  then show ?case by simp
next
  case (Cons d ds)
  obtain p s where d: "d = (p, s)" by (cases d)
  let ?cs = "filter (\<lambda>c. char_key c \<noteq> (p, s)) cs"
  have first: "fst (remoteDelete coll p s cs) = ?cs"
    using Cons.prems d by (intro remoteDelete_key_filter) auto
  have "distinct_keys ?cs"
    using Cons.prems(1) by (rule distinct_keys_filter)
  moreover have "\<forall>d \<in> set ds. \<forall>c \<in> set ?cs. tied coll (fst d) (snd d) c \<longrightarrow> char_key c = d"
    using Cons.prems(2) by auto
  ultimately have "fold (\<lambda>(p, s) acc. fst (remoteDelete coll p s acc)) ds ?cs =
      filter (\<lambda>c. char_key c \<notin> set ds) ?cs"
    by (rule Cons.IH)
  then show ?case
    using first d by (simp add: conj_commute)
qed
section \<open>Snapshots, neighbours and formatting\<close>

lemma untied_loadState: "untied coll (loadState coll (Some cs)) \<longleftrightarrow> untied coll cs"
proof -
  have "mset (loadState coll (Some cs)) = mset cs" by (simp add: loadState_Some)
  then have "mset (map (order_key coll) (loadState coll (Some cs))) = mset (map (order_key coll) cs)"
    by (simp only: mset_map)
  then show ?thesis unfolding untied_def by (rule mset_eq_imp_distinct_iff)
qed

lemma loadState_perm:
  assumes "untied coll st" and "mset st' = mset st"
  shows "loadState coll (Some st') = loadState coll (Some st)"
proof -
  have "mset (map (order_key coll) st') = mset (map (order_key coll) st)" using assms(2) by simp
  then have "distinct (map (order_key coll) st')"
    using assms(1) unfolding untied_def by (metis mset_eq_imp_distinct_iff)
  then have d': "untied coll st'" by (simp add: untied_def)
  have "set (loadState coll (Some st')) = set (loadState coll (Some st))"
    using assms(2) by (simp add: loadState_Some) (metis mset_eq_setD)
  then show ?thesis
    using assms(1) d'
    by (intro sorted_untied_chars_unique [of coll])
       (simp_all add: sorted_chars_loadState untied_loadState)
qed

lemma position_less_key: "position a < position b \<Longrightarrow> order_key coll a < order_key coll b"
  by (simp add: order_key_def)

lemma sorted_chars_nth_mono:
  "sorted_chars coll cs \<Longrightarrow> i \<le> j \<Longrightarrow> j < length cs \<Longrightarrow> order_key coll (cs ! i) \<le> order_key coll (cs ! j)"
  by (simp add: sorted_chars_def sorted_iff_nth_mono)

lemma prev_position_cases:
  "prev_position cs index =
     (if 1 \<le> index \<and> index \<le> int (length cs) then position (cs ! nat (index - 1)) else [0])"
  by (auto simp add: prev_position_def at_index_def)

lemma next_position_cases:
  "next_position cs index =
     (if 0 \<le> index \<and> index < int (length cs) then position (cs ! nat index) else [100])"
  by (auto simp add: next_position_def at_index_def)

lemma snd_localInsert:
  "snd (localInsert coll site index v attrs cs) =
     \<lparr>val = v, position = generateIdentifierBetween (prev_position cs index) (next_position cs index),
      siteId = site, attributes = attrs\<rparr>"
  by (cases attrs) (simp_all add: localInsert_def Let_def)

lemma fst_localInsert:
  "fst (localInsert coll site index v attrs cs) = fst (remoteInsert coll (snd (localInsert coll site index v attrs cs)) cs)"
  by (simp add: localInsert_def Let_def)

lemma splice_at_index:
  assumes s: "sorted_chars coll cs" and r: "i \<le> length cs"
    and lo: "i \<noteq> 0 \<Longrightarrow> position (cs ! (i - 1)) < position c"
    and hi: "i < length cs \<Longrightarrow> position c < position (cs ! i)"
  shows "remoteInsert coll c cs = (take i cs @ c # drop i cs, Some i)"
proof -
  have below: "order_key coll (cs ! j) < order_key coll c" if "j < i" for j
  proof -
    have "order_key coll (cs ! j) \<le> order_key coll (cs ! (i - 1))"
      using sorted_chars_nth_mono [OF s, of j "i - 1"] that r by simp
    moreover have "order_key coll (cs ! (i - 1)) < order_key coll c"
      using lo that by (simp add: position_less_key)
    ultimately show ?thesis by simp
  qed
  have above: "order_key coll c < order_key coll (cs ! j)" if "i \<le> j" "j < length cs" for j
  proof -
    have "order_key coll (cs ! i) \<le> order_key coll (cs ! j)"
      using sorted_chars_nth_mono [OF s, of i j] that by simp
    moreover have "order_key coll c < order_key coll (cs ! i)"
      using hi that by (simp add: position_less_key)
    ultimately show ?thesis by simp
  qed
  have "order_key coll c \<notin> order_key coll ` set cs"
  proof
    assume "order_key coll c \<in> order_key coll ` set cs"
    then obtain j where j: "j < length cs" "order_key coll (cs ! j) = order_key coll c"
      by (metis imageE in_set_conv_nth)
    then show False using below [of j] above [of j] by (cases "j < i") auto
  qed
  from remoteInsert_absent [OF s this] obtain l where
    l: "remoteInsert coll c cs = (take l cs @ c # drop l cs, Some l)" "l \<le> length cs"
    "\<forall>j<l. order_key coll (cs ! j) < order_key coll c"
    "\<forall>j. l \<le> j \<and> j < length cs \<longrightarrow> order_key coll c < order_key coll (cs ! j)"
    by blast
  have "l = i"
  proof (rule ccontr)
    assume "l \<noteq> i"
    then consider "l < i" | "i < l" by linarith
    then show False
    proof cases
      case 1
      then have "order_key coll (cs ! l) < order_key coll c" "order_key coll c < order_key coll (cs ! l)"
        using below [of l] l(4) r by auto
      then show False by simp
    next
      case 2
      then have "order_key coll (cs ! i) < order_key coll c" "order_key coll c < order_key coll (cs ! i)"
        using above [of i] l(2,3) by auto
      then show False by simp
    qed
  qed
  then show ?thesis using l(1) by simp
qed

lemma format_char_fields [simp]:
  "val (format_char patch c) = val c"
  "position (format_char patch c) = position c"
  "siteId (format_char patch c) = siteId c"
  by (simp_all add: format_char_def)

lemma agree_outside_format_char:
  "agree_outside patch (attributes_or_empty (format_char patch c)) (attributes_or_empty c)"
  by (simp add: agree_outside_def format_char_def attributes_or_empty_def merge_attributes_def
      override_def)

lemma agree_outside_refl: "agree_outside patch a a"
  by (simp add: agree_outside_def)

lemma update_frame:
  assumes "i < length cs"
  shows "\<forall>j<length cs.
    val ((cs[i := format_char patch (cs ! i)]) ! j) = val (cs ! j) \<and>
    position ((cs[i := format_char patch (cs ! i)]) ! j) = position (cs ! j) \<and>
    siteId ((cs[i := format_char patch (cs ! i)]) ! j) = siteId (cs ! j) \<and>
    agree_outside patch (attributes_or_empty ((cs[i := format_char patch (cs ! i)]) ! j))
      (attributes_or_empty (cs ! j))"
  using assms by (auto simp add: nth_list_update agree_outside_format_char agree_outside_refl)

lemma localFormat_cases:
  "localFormat index patch cs =
     (if 0 \<le> index \<and> index < int (length cs)
      then (cs[nat index := format_char patch (cs ! nat index)],
            Some (position (cs ! nat index), siteId (cs ! nat index)))
      else (cs, None))"
  by (simp add: localFormat_def at_index_def)

lemma remoteFormat_cases:
  "(\<exists>i<length cs. char_key (cs ! i) = (pos, site) \<and> (\<forall>j<i. char_key (cs ! j) \<noteq> (pos, site)) \<and>
       remoteFormat pos site patch cs = cs[i := format_char patch (cs ! i)]) \<or>
   ((pos, site) \<notin> char_key ` set cs \<and> remoteFormat pos site patch cs = cs)"
proof (cases "findIndex (same_key pos site) cs")
  case None
  then have "(pos, site) \<notin> char_key ` set cs"
    by (auto simp add: findIndex_None)
  then show ?thesis using None by (simp add: remoteFormat_def)
next
  case (Some i)
  from findIndex_Some [OF Some] show ?thesis
    using Some by (auto simp add: remoteFormat_def)
qed

section \<open>Delivery seen on the map from order keys to elements\<close>

subsection \<open>The view of a sequence without ties\<close>























section \<open>Claim C1: convergence\<close>



section \<open>Claim C2: the allocator\<close>




section \<open>Claim C3: the sequence invariant\<close>

text \<open>
  Claim C3, as amended.  Under every collation, every call keeps a sequence that is
  sorted under the comparator sorted, and \<open>loadState\<close> leaves the sequence sorted
  whatever the snapshot.  Every call keeps a sorted sequence without duplicate keys
  free of duplicates, provided the snapshot of a \<open>loadState\<close> call has no two
  elements with the same key.  \<open>loadState\<close> sorts and does not remove duplicates: a
  snapshot with two elements of one key leaves both in the sequence.
\<close>

theorem calls_keep_invariant:
  "(sorted_chars coll cs \<longrightarrow> sorted_chars coll (run_call coll site call cs)) \<and>
   (sorted_chars coll cs \<and> distinct_keys cs \<and> unique_snapshot call \<longrightarrow>
      distinct_keys (run_call coll site call cs)) \<and>
   sorted_chars coll (loadState coll st)"
  using sorted_chars_run_call [of coll cs site call] distinct_keys_run_call [of coll cs call site]
    sorted_chars_loadState [of coll st]
  by blast

theorem calls_keep_invariant_witness:
  "sorted_chars ignoring_controls [\<lparr>val = ''a'', position = [50], siteId = ''S1'', attributes = None\<rparr>] \<and>
   distinct_keys [\<lparr>val = ''a'', position = [50], siteId = ''S1'', attributes = None\<rparr>] \<and>
   unique_snapshot (LocalInsert 1 ''b'' None) \<and>
   run_call ignoring_controls ''S1'' (LocalInsert 1 ''b'' None)
     [\<lparr>val = ''a'', position = [50], siteId = ''S1'', attributes = None\<rparr>] =
     [\<lparr>val = ''a'', position = [50], siteId = ''S1'', attributes = None\<rparr>,
      \<lparr>val = ''b'', position = [75], siteId = ''S1'', attributes = None\<rparr>] \<and>
   sorted_chars ignoring_controls (run_call ignoring_controls ''S1'' (LocalInsert 1 ''b'' None)
     [\<lparr>val = ''a'', position = [50], siteId = ''S1'', attributes = None\<rparr>]) \<and>
   distinct_keys (run_call ignoring_controls ''S1'' (LocalInsert 1 ''b'' None)
     [\<lparr>val = ''a'', position = [50], siteId = ''S1'', attributes = None\<rparr>])"
proof -
  let ?cs = "[\<lparr>val = ''a'', position = [50], siteId = ''S1'', attributes = None\<rparr>]"
  have s: "sorted_chars ignoring_controls ?cs" by (simp add: sorted_chars_def)
  have d: "distinct_keys ?cs" by (simp add: distinct_keys_def)
  have u: "unique_snapshot (LocalInsert 1 ''b'' None)" by simp
  have r: "run_call ignoring_controls ''S1'' (LocalInsert 1 ''b'' None) ?cs =
     [\<lparr>val = ''a'', position = [50], siteId = ''S1'', attributes = None\<rparr>,
      \<lparr>val = ''b'', position = [75], siteId = ''S1'', attributes = None\<rparr>]"
    by code_simp
  show ?thesis
    using calls_keep_invariant [of ignoring_controls ?cs "''S1''" "LocalInsert 1 ''b'' None" None] s d u r
    by simp
qed

theorem calls_keep_invariant_counterexample:
  "\<not> distinct_keys (run_call ignoring_controls ''S1''
      (LoadState (Some [\<lparr>val = ''x'', position = [5], siteId = ''S2'', attributes = None\<rparr>,
                        \<lparr>val = ''y'', position = [5], siteId = ''S2'', attributes = None\<rparr>])) [])"
  by code_simp

section \<open>Claim C4: remoteInsert\<close>

text \<open>
  Claim C4, as amended.  In every state the engine can reach, under every collation,
  \<open>remoteInsert e\<close> applied twice leaves the same sequence as applied once; when an
  element tied with \<open>e\<close> under the comparator is present, in particular one with the
  key of \<open>e\<close>, the sequence is unchanged and nothing is returned; otherwise \<open>e\<close> is
  spliced in at the index \<open>l\<close> with every element that sorts lower before it and
  every element that sorts higher after it, and \<open>l\<close> is returned.  An element whose
  key is absent is dropped all the same when the collation ties its site id with that
  of an element at the same position.
\<close>

theorem remoteInsert_idempotent:
  assumes "reachable coll site cs"
  shows "fst (remoteInsert coll e (fst (remoteInsert coll e cs))) = fst (remoteInsert coll e cs) \<and>
    (char_key e \<in> char_key ` set cs \<longrightarrow> remoteInsert coll e cs = (cs, None)) \<and>
    (order_key coll e \<in> order_key coll ` set cs \<longrightarrow> remoteInsert coll e cs = (cs, None)) \<and>
    (order_key coll e \<notin> order_key coll ` set cs \<longrightarrow>
       (\<exists>l. remoteInsert coll e cs = (take l cs @ e # drop l cs, Some l) \<and> l \<le> length cs \<and>
            (\<forall>j<l. order_key coll (cs ! j) < order_key coll e) \<and>
            (\<forall>j. l \<le> j \<and> j < length cs \<longrightarrow> order_key coll e < order_key coll (cs ! j))))"
proof -
  have s: "sorted_chars coll cs" using assms by (rule reachable_sorted)
  have s': "sorted_chars coll (fst (remoteInsert coll e cs))"
    using s by (rule sorted_chars_remoteInsert)
  have "order_key coll e \<in> order_key coll ` set (fst (remoteInsert coll e cs))"
    using set_remoteInsert [OF s, of e] by auto
  then have twice: "remoteInsert coll e (fst (remoteInsert coll e cs)) =
                    (fst (remoteInsert coll e cs), None)"
    using remoteInsert_present [OF s'] by simp
  have key: "char_key e \<in> char_key ` set cs \<longrightarrow> order_key coll e \<in> order_key coll ` set cs"
    using key_absent_if_untied [of coll e cs] by blast
  show ?thesis
    using twice key remoteInsert_present [OF s, of e] remoteInsert_absent [OF s, of e] by simp
qed

theorem remoteInsert_idempotent_witness:
  "reachable ignoring_controls ''S2''
     [\<lparr>val = ''x'', position = [10], siteId = ''S1'', attributes = None\<rparr>] \<and>
   fst (remoteInsert ignoring_controls \<lparr>val = ''y'', position = [5], siteId = ''S1'', attributes = None\<rparr>
     [\<lparr>val = ''x'', position = [10], siteId = ''S1'', attributes = None\<rparr>]) =
     [\<lparr>val = ''y'', position = [5], siteId = ''S1'', attributes = None\<rparr>,
      \<lparr>val = ''x'', position = [10], siteId = ''S1'', attributes = None\<rparr>] \<and>
   fst (remoteInsert ignoring_controls \<lparr>val = ''y'', position = [5], siteId = ''S1'', attributes = None\<rparr>
     (fst (remoteInsert ignoring_controls \<lparr>val = ''y'', position = [5], siteId = ''S1'', attributes = None\<rparr>
       [\<lparr>val = ''x'', position = [10], siteId = ''S1'', attributes = None\<rparr>]))) =
     [\<lparr>val = ''y'', position = [5], siteId = ''S1'', attributes = None\<rparr>,
      \<lparr>val = ''x'', position = [10], siteId = ''S1'', attributes = None\<rparr>]"
proof -
  let ?x = "\<lparr>val = ''x'', position = [10], siteId = ''S1'', attributes = None\<rparr>"
  let ?y = "\<lparr>val = ''y'', position = [5], siteId = ''S1'', attributes = None\<rparr>"
  have "run_call ignoring_controls ''S2'' (RemoteInsert ?x) [] = [?x]" by code_simp
  then have r: "reachable ignoring_controls ''S2'' [?x]"
    using reachable_call [OF reachable_init, of ignoring_controls "''S2''" "RemoteInsert ?x"]
    by simp
  have i: "fst (remoteInsert ignoring_controls ?y [?x]) = [?y, ?x]" by code_simp
  show ?thesis using remoteInsert_idempotent [OF r, of ?y] r i by simp
qed

theorem remoteInsert_idempotent_counterexample:
  "reachable ignoring_controls ''S2''
     [\<lparr>val = ''x'', position = [5], siteId = ''S1'', attributes = None\<rparr>] \<and>
   char_key \<lparr>val = ''y'', position = [5], siteId = ''S1'' @ [CHR 0x01], attributes = None\<rparr> \<notin>
     char_key ` set [\<lparr>val = ''x'', position = [5], siteId = ''S1'', attributes = None\<rparr>] \<and>
   remoteInsert ignoring_controls
     \<lparr>val = ''y'', position = [5], siteId = ''S1'' @ [CHR 0x01], attributes = None\<rparr>
     [\<lparr>val = ''x'', position = [5], siteId = ''S1'', attributes = None\<rparr>] =
     ([\<lparr>val = ''x'', position = [5], siteId = ''S1'', attributes = None\<rparr>], None)"
proof -
  let ?x = "\<lparr>val = ''x'', position = [5], siteId = ''S1'', attributes = None\<rparr>"
  let ?y = "\<lparr>val = ''y'', position = [5], siteId = ''S1'' @ [CHR 0x01], attributes = None\<rparr>"
  have "run_call ignoring_controls ''S2'' (RemoteInsert ?x) [] = [?x]" by code_simp
  then have r: "reachable ignoring_controls ''S2'' [?x]"
    using reachable_call [OF reachable_init, of ignoring_controls "''S2''" "RemoteInsert ?x"]
    by simp
  have k: "char_key ?y \<notin> char_key ` set [?x]" by (simp add: char_key_def)
  have d: "remoteInsert ignoring_controls ?y [?x] = ([?x], None)" by code_simp
  show ?thesis using r k d by simp
qed

section \<open>Claim C5: remoteDelete\<close>

text \<open>
  Claim C5, as amended.  Under every collation and in every state: when no element is
  tied with the key \<open>(p, s)\<close> under the comparator, \<open>remoteDelete p s\<close> returns
  \<open>-1\<close> and changes nothing; when an element has the key, or the state is sorted and
  an element is tied with the key, it removes one element tied with the key and returns
  its index.  In a state without duplicate keys in which the elements tied with the key
  have the key, it removes exactly the elements with that key.  In a sorted state
  without ties it removes exactly the elements tied with the key, is idempotent and
  commutes with \<open>remoteDelete\<close> of any key, and it commutes with \<open>remoteInsert\<close>
  of an element that is not tied with the key.  With two elements of one key in the
  sequence (after \<open>loadState\<close> of such a snapshot) a second \<open>remoteDelete\<close>
  removes a second element; and an element whose site id the collation ties with
  \<open>s\<close> is removed although no element has the key.
\<close>

theorem remoteDelete_behaviour:
  "((\<forall>c \<in> set cs. \<not> tied coll p s c) \<longrightarrow> remoteDelete coll p s cs = (cs, -1)) \<and>
   ((p, s) \<in> char_key ` set cs \<or> sorted_chars coll cs \<and> (\<exists>c \<in> set cs. tied coll p s c) \<longrightarrow>
      (\<exists>i. i < length cs \<and> tied coll p s (cs ! i) \<and>
           remoteDelete coll p s cs = (splice_out i cs, int i))) \<and>
   (distinct_keys cs \<and> (\<forall>c \<in> set cs. tied coll p s c \<longrightarrow> char_key c = (p, s)) \<longrightarrow>
      fst (remoteDelete coll p s cs) = filter (\<lambda>c. char_key c \<noteq> (p, s)) cs) \<and>
   (sorted_chars coll cs \<and> untied coll cs \<longrightarrow>
      fst (remoteDelete coll p s cs) = filter (\<lambda>c. \<not> tied coll p s c) cs \<and>
      fst (remoteDelete coll p s (fst (remoteDelete coll p s cs))) = fst (remoteDelete coll p s cs) \<and>
      fst (remoteDelete coll p s (fst (remoteDelete coll p' s' cs))) =
        fst (remoteDelete coll p' s' (fst (remoteDelete coll p s cs)))) \<and>
   (sorted_chars coll cs \<and> untied coll cs \<and> \<not> tied coll p s e \<longrightarrow>
      fst (remoteDelete coll p s (fst (remoteInsert coll e cs))) =
        fst (remoteInsert coll e (fst (remoteDelete coll p s cs))))"
proof -
  have a: "(\<forall>c \<in> set cs. \<not> tied coll p s c) \<longrightarrow> remoteDelete coll p s cs = (cs, -1)"
    using remoteDelete_absent [of cs coll p s] by blast
  have b: "(p, s) \<in> char_key ` set cs \<or> sorted_chars coll cs \<and> (\<exists>c \<in> set cs. tied coll p s c) \<longrightarrow>
      (\<exists>i. i < length cs \<and> tied coll p s (cs ! i) \<and>
           remoteDelete coll p s cs = (splice_out i cs, int i))"
    using remoteDelete_present [of p s cs coll] remoteDelete_tied [of coll cs p s] by blast
  have c: "distinct_keys cs \<and> (\<forall>c \<in> set cs. tied coll p s c \<longrightarrow> char_key c = (p, s)) \<longrightarrow>
      fst (remoteDelete coll p s cs) = filter (\<lambda>c. char_key c \<noteq> (p, s)) cs"
    using remoteDelete_key_filter [of cs coll p s] by blast
  have d: "sorted_chars coll cs \<and> untied coll cs \<longrightarrow>
      fst (remoteDelete coll p s cs) = filter (\<lambda>c. \<not> tied coll p s c) cs \<and>
      fst (remoteDelete coll p s (fst (remoteDelete coll p s cs))) = fst (remoteDelete coll p s cs) \<and>
      fst (remoteDelete coll p s (fst (remoteDelete coll p' s' cs))) =
        fst (remoteDelete coll p' s' (fst (remoteDelete coll p s cs)))"
    using remoteDelete_filter [of coll cs p s] remoteDelete_twice [of coll cs p s]
      remoteDelete_commute [of coll cs p s p' s'] by blast
  have e: "sorted_chars coll cs \<and> untied coll cs \<and> \<not> tied coll p s e \<longrightarrow>
      fst (remoteDelete coll p s (fst (remoteInsert coll e cs))) =
        fst (remoteInsert coll e (fst (remoteDelete coll p s cs)))"
    using remoteDelete_remoteInsert_commute [of coll cs p s e] by blast
  show ?thesis using a b c d e by (intro conjI)
qed

theorem remoteDelete_behaviour_witness:
  "untied ignoring_controls
     [\<lparr>val = ''y'', position = [5], siteId = ''S1'', attributes = None\<rparr>,
      \<lparr>val = ''x'', position = [10], siteId = ''S1'', attributes = None\<rparr>] \<and>
   sorted_chars ignoring_controls
     [\<lparr>val = ''y'', position = [5], siteId = ''S1'', attributes = None\<rparr>,
      \<lparr>val = ''x'', position = [10], siteId = ''S1'', attributes = None\<rparr>] \<and>
   remoteDelete ignoring_controls [3] ''S1''
     [\<lparr>val = ''y'', position = [5], siteId = ''S1'', attributes = None\<rparr>,
      \<lparr>val = ''x'', position = [10], siteId = ''S1'', attributes = None\<rparr>] =
     ([\<lparr>val = ''y'', position = [5], siteId = ''S1'', attributes = None\<rparr>,
       \<lparr>val = ''x'', position = [10], siteId = ''S1'', attributes = None\<rparr>], -1) \<and>
   fst (remoteDelete ignoring_controls [10] ''S1''
     [\<lparr>val = ''y'', position = [5], siteId = ''S1'', attributes = None\<rparr>,
      \<lparr>val = ''x'', position = [10], siteId = ''S1'', attributes = None\<rparr>]) =
     [\<lparr>val = ''y'', position = [5], siteId = ''S1'', attributes = None\<rparr>] \<and>
   fst (remoteDelete ignoring_controls [10] ''S1'' (fst (remoteDelete ignoring_controls [10] ''S1''
     [\<lparr>val = ''y'', position = [5], siteId = ''S1'', attributes = None\<rparr>,
      \<lparr>val = ''x'', position = [10], siteId = ''S1'', attributes = None\<rparr>]))) =
     [\<lparr>val = ''y'', position = [5], siteId = ''S1'', attributes = None\<rparr>] \<and>
   fst (remoteDelete ignoring_controls [10] ''S1''
     (fst (remoteInsert ignoring_controls \<lparr>val = ''z'', position = [7], siteId = ''S2'', attributes = None\<rparr>
       [\<lparr>val = ''y'', position = [5], siteId = ''S1'', attributes = None\<rparr>,
        \<lparr>val = ''x'', position = [10], siteId = ''S1'', attributes = None\<rparr>]))) =
   fst (remoteInsert ignoring_controls \<lparr>val = ''z'', position = [7], siteId = ''S2'', attributes = None\<rparr>
     (fst (remoteDelete ignoring_controls [10] ''S1''
       [\<lparr>val = ''y'', position = [5], siteId = ''S1'', attributes = None\<rparr>,
        \<lparr>val = ''x'', position = [10], siteId = ''S1'', attributes = None\<rparr>])))"
proof -
  let ?y = "\<lparr>val = ''y'', position = [5], siteId = ''S1'', attributes = None\<rparr>"
  let ?x = "\<lparr>val = ''x'', position = [10], siteId = ''S1'', attributes = None\<rparr>"
  let ?z = "\<lparr>val = ''z'', position = [7], siteId = ''S2'', attributes = None\<rparr>"
  let ?c = "ignoring_controls"
  have d: "untied ?c [?y, ?x]" by (simp add: untied_def order_key_def)
  have s: "sorted_chars ?c [?y, ?x]" by (simp add: sorted_chars_def order_key_def)
  have a: "\<forall>c \<in> set [?y, ?x]. \<not> tied ?c [3] ''S1'' c" by (simp add: tied_iff)
  have ne: "\<not> tied ?c [10] ''S1'' ?z" by (simp add: tied_iff)
  have f: "filter (\<lambda>c. \<not> tied ?c [10] ''S1'' c) [?y, ?x] = [?y]" by (simp add: tied_iff)
  note t3 = remoteDelete_behaviour [of "[?y, ?x]" ?c "[3]" "''S1''" "[3]" "''S1''" ?z]
  note t10 = remoteDelete_behaviour [of "[?y, ?x]" ?c "[10]" "''S1''" "[10]" "''S1''" ?z]
  have n: "remoteDelete ?c [3] ''S1'' [?y, ?x] = ([?y, ?x], -1)"
    using t3 a by blast
  have i: "fst (remoteDelete ?c [10] ''S1'' [?y, ?x]) = filter (\<lambda>c. \<not> tied ?c [10] ''S1'' c) [?y, ?x]"
    "fst (remoteDelete ?c [10] ''S1'' (fst (remoteDelete ?c [10] ''S1'' [?y, ?x]))) =
     fst (remoteDelete ?c [10] ''S1'' [?y, ?x])"
    using t10 d s by blast+
  have c: "fst (remoteDelete ?c [10] ''S1'' (fst (remoteInsert ?c ?z [?y, ?x]))) =
           fst (remoteInsert ?c ?z (fst (remoteDelete ?c [10] ''S1'' [?y, ?x])))"
    using t10 d s ne by blast
  show ?thesis
    using d s n i c unfolding f by simp
qed

theorem remoteDelete_behaviour_counterexample:
  "fst (remoteDelete ignoring_controls [5] ''S1'' (fst (remoteDelete ignoring_controls [5] ''S1''
     (loadState ignoring_controls
        (Some [\<lparr>val = ''x'', position = [5], siteId = ''S1'', attributes = None\<rparr>,
               \<lparr>val = ''y'', position = [5], siteId = ''S1'', attributes = None\<rparr>]))))) = [] \<and>
   fst (remoteDelete ignoring_controls [5] ''S1''
     (loadState ignoring_controls
        (Some [\<lparr>val = ''x'', position = [5], siteId = ''S1'', attributes = None\<rparr>,
               \<lparr>val = ''y'', position = [5], siteId = ''S1'', attributes = None\<rparr>]))) =
     [\<lparr>val = ''y'', position = [5], siteId = ''S1'', attributes = None\<rparr>] \<and>
   ([5], ''S1'' @ [CHR 0x01]) \<notin>
     char_key ` set [\<lparr>val = ''x'', position = [5], siteId = ''S1'', attributes = None\<rparr>] \<and>
   remoteDelete ignoring_controls [5] (''S1'' @ [CHR 0x01])
     [\<lparr>val = ''x'', position = [5], siteId = ''S1'', attributes = None\<rparr>] = ([], 0)"
proof -
  let ?x = "\<lparr>val = ''x'', position = [5], siteId = ''S1'', attributes = None\<rparr>"
  let ?y = "\<lparr>val = ''y'', position = [5], siteId = ''S1'', attributes = None\<rparr>"
  have a: "fst (remoteDelete ignoring_controls [5] ''S1'' (fst (remoteDelete ignoring_controls [5] ''S1''
     (loadState ignoring_controls (Some [?x, ?y])))) ) = []" by code_simp
  have b: "fst (remoteDelete ignoring_controls [5] ''S1''
     (loadState ignoring_controls (Some [?x, ?y]))) = [?y]" by code_simp
  have c: "([5], ''S1'' @ [CHR 0x01]) \<notin> char_key ` set [?x]" by (simp add: char_key_def)
  have d: "remoteDelete ignoring_controls [5] (''S1'' @ [CHR 0x01]) [?x] = ([], 0)" by code_simp
  show ?thesis using a b c d by simp
qed

section \<open>Claim C6: batchRemoteDelete\<close>

text \<open>
  Claim C6, as amended.  In a state without duplicate keys, and for descriptors such
  that every element tied with a descriptor under the comparator has the key the
  descriptor names, \<open>batchRemoteDelete\<close> leaves the sequence that \<open>remoteDelete\<close>,
  applied to each descriptor in turn, leaves, under every collation.  In every state it
  returns the number of elements it removed, and descriptors that address only absent
  keys give 0 and an unchanged sequence.  With two elements of one key in the sequence
  \<open>batchRemoteDelete\<close> removes both, \<open>remoteDelete\<close> one; and for a descriptor whose
  site id the collation ties with that of an element at the same position,
  \<open>batchRemoteDelete\<close>, which compares key strings, keeps the element, while
  \<open>remoteDelete\<close> removes it.
\<close>

theorem batchRemoteDelete_refines:
  "(distinct_keys cs \<and>
    (\<forall>d \<in> set ops. \<forall>c \<in> set cs. tied coll (fst d) (snd d) c \<longrightarrow> char_key c = d) \<longrightarrow>
      fst (batchRemoteDelete ops cs) =
        fold (\<lambda>(p, s) acc. fst (remoteDelete coll p s acc)) ops cs) \<and>
   snd (batchRemoteDelete ops cs) = length cs - length (fst (batchRemoteDelete ops cs)) \<and>
   ((\<forall>d \<in> set ops. d \<notin> char_key ` set cs) \<longrightarrow> batchRemoteDelete ops cs = (cs, 0))"
proof (intro conjI impI)
  assume "distinct_keys cs \<and>
    (\<forall>d \<in> set ops. \<forall>c \<in> set cs. tied coll (fst d) (snd d) c \<longrightarrow> char_key c = d)"
  then have "fold (\<lambda>(p, s) acc. fst (remoteDelete coll p s acc)) ops cs =
             filter (\<lambda>c. char_key c \<notin> set ops) cs"
    using fold_remoteDelete_filter [of cs ops coll] by blast
  then show "fst (batchRemoteDelete ops cs) =
             fold (\<lambda>(p, s) acc. fst (remoteDelete coll p s acc)) ops cs"
    by (simp add: batchRemoteDelete_filter)
next
  have "length (filter (\<lambda>c. char_key c \<in> set ops) cs) =
        length cs - length (filter (\<lambda>c. \<not> char_key c \<in> set ops) cs)"
    using sum_length_filter_compl [of "\<lambda>c. char_key c \<in> set ops" cs] by simp
  then show "snd (batchRemoteDelete ops cs) = length cs - length (fst (batchRemoteDelete ops cs))"
    by (simp add: batchRemoteDelete_filter)
next
  assume "\<forall>d \<in> set ops. d \<notin> char_key ` set cs"
  then have "\<forall>c \<in> set cs. char_key c \<notin> set ops" by auto
  then have "filter (\<lambda>c. char_key c \<notin> set ops) cs = cs"
    "filter (\<lambda>c. char_key c \<in> set ops) cs = []"
    by (simp_all add: filter_id_conv filter_empty_conv)
  then show "batchRemoteDelete ops cs = (cs, 0)"
    by (simp add: batchRemoteDelete_filter)
qed

theorem batchRemoteDelete_refines_witness:
  "distinct_keys [\<lparr>val = ''y'', position = [5], siteId = ''S1'', attributes = None\<rparr>,
                  \<lparr>val = ''x'', position = [10], siteId = ''S1'', attributes = None\<rparr>] \<and>
   batchRemoteDelete [([5], ''S1''), ([7], ''S1'')]
     [\<lparr>val = ''y'', position = [5], siteId = ''S1'', attributes = None\<rparr>,
      \<lparr>val = ''x'', position = [10], siteId = ''S1'', attributes = None\<rparr>] =
     ([\<lparr>val = ''x'', position = [10], siteId = ''S1'', attributes = None\<rparr>], 1) \<and>
   fold (\<lambda>(p, s) acc. fst (remoteDelete ignoring_controls p s acc)) [([5], ''S1''), ([7], ''S1'')]
     [\<lparr>val = ''y'', position = [5], siteId = ''S1'', attributes = None\<rparr>,
      \<lparr>val = ''x'', position = [10], siteId = ''S1'', attributes = None\<rparr>] =
     [\<lparr>val = ''x'', position = [10], siteId = ''S1'', attributes = None\<rparr>] \<and>
   batchRemoteDelete [([7], ''S1''), ([5], ''S2'')]
     [\<lparr>val = ''y'', position = [5], siteId = ''S1'', attributes = None\<rparr>,
      \<lparr>val = ''x'', position = [10], siteId = ''S1'', attributes = None\<rparr>] =
     ([\<lparr>val = ''y'', position = [5], siteId = ''S1'', attributes = None\<rparr>,
       \<lparr>val = ''x'', position = [10], siteId = ''S1'', attributes = None\<rparr>], 0)"
proof -
  let ?y = "\<lparr>val = ''y'', position = [5], siteId = ''S1'', attributes = None\<rparr>"
  let ?x = "\<lparr>val = ''x'', position = [10], siteId = ''S1'', attributes = None\<rparr>"
  let ?c = "ignoring_controls"
  have d: "distinct_keys [?y, ?x]" by (simp add: distinct_keys_def char_key_def)
  have e: "\<forall>d \<in> set [([5], ''S1''), ([7], ''S1'')]. \<forall>c \<in> set [?y, ?x].
             tied ?c (fst d) (snd d) c \<longrightarrow> char_key c = d"
    by (simp add: tied_iff char_key_def)
  have b: "batchRemoteDelete [([5], ''S1''), ([7], ''S1'')] [?y, ?x] = ([?x], 1)" by code_simp
  have a: "\<forall>d \<in> set [([7], ''S1''), ([5], ''S2'')]. d \<notin> char_key ` set [?y, ?x]"
    by (simp add: char_key_def)
  note t1 = batchRemoteDelete_refines [of "[?y, ?x]" "[([5], ''S1''), ([7], ''S1'')]" ?c]
  note t2 = batchRemoteDelete_refines [of "[?y, ?x]" "[([7], ''S1''), ([5], ''S2'')]" ?c]
  have f: "fst (batchRemoteDelete [([5], ''S1''), ([7], ''S1'')] [?y, ?x]) =
           fold (\<lambda>(p, s) acc. fst (remoteDelete ?c p s acc)) [([5], ''S1''), ([7], ''S1'')] [?y, ?x]"
    using t1 d e by blast
  have z: "batchRemoteDelete [([7], ''S1''), ([5], ''S2'')] [?y, ?x] = ([?y, ?x], 0)"
    using t2 a by blast
  show ?thesis
    using d b z f [symmetric] by simp
qed

theorem batchRemoteDelete_refines_counterexample:
  "fst (batchRemoteDelete [([5], ''S1'')]
     (loadState ignoring_controls
        (Some [\<lparr>val = ''x'', position = [5], siteId = ''S1'', attributes = None\<rparr>,
               \<lparr>val = ''y'', position = [5], siteId = ''S1'', attributes = None\<rparr>]))) = [] \<and>
   fold (\<lambda>(p, s) acc. fst (remoteDelete ignoring_controls p s acc)) [([5], ''S1'')]
     (loadState ignoring_controls
        (Some [\<lparr>val = ''x'', position = [5], siteId = ''S1'', attributes = None\<rparr>,
               \<lparr>val = ''y'', position = [5], siteId = ''S1'', attributes = None\<rparr>])) =
     [\<lparr>val = ''y'', position = [5], siteId = ''S1'', attributes = None\<rparr>] \<and>
   batchRemoteDelete [([5], ''S1'' @ [CHR 0x01])]
     [\<lparr>val = ''x'', position = [5], siteId = ''S1'', attributes = None\<rparr>] =
     ([\<lparr>val = ''x'', position = [5], siteId = ''S1'', attributes = None\<rparr>], 0) \<and>
   fold (\<lambda>(p, s) acc. fst (remoteDelete ignoring_controls p s acc)) [([5], ''S1'' @ [CHR 0x01])]
     [\<lparr>val = ''x'', position = [5], siteId = ''S1'', attributes = None\<rparr>] = []"
  by code_simp

section \<open>Claim C7: undo after a format\<close>

text \<open>
  Claim C7 says that \<open>undo\<close> right after a local format restores the attribute set
  each character had before.  \<open>handleUndo\<close> hands the recorded attributes to
  \<open>remoteFormat\<close>, which merges them into the current ones, so a key that the
  format added stays.  One character with a font size and a font family, made bold and
  then undone: the undo batch holds the attributes without \<open>bold\<close>, the redo batch
  the ones with it, and after the undo the character is still bold.
\<close>

theorem undo_format_keeps_added_key:
  "undoStack (applyToSelection
     \<lparr>bold = Some True, italic = None, underline = None, fontSize = None, fontFamily = None\<rparr> 0 1
     \<lparr>objects = [\<lparr>val = ''a'', position = [50], siteId = ''S1'',
       attributes = Some \<lparr>bold = None, italic = None, underline = None,
         fontSize = Some ''18px'', fontFamily = Some ''Inter, system-ui, sans-serif''\<rparr>\<rparr>],
     rawChars = [0], undoStack = [], redoStack = []\<rparr>) =
     [[\<lparr>type = entry_format, char = 0,
        prevAttributes = Some \<lparr>bold = None, italic = None, underline = None,
          fontSize = Some ''18px'', fontFamily = Some ''Inter, system-ui, sans-serif''\<rparr>\<rparr>]] \<and>
   contents (applyToSelection
     \<lparr>bold = Some True, italic = None, underline = None, fontSize = None, fontFamily = None\<rparr> 0 1
     \<lparr>objects = [\<lparr>val = ''a'', position = [50], siteId = ''S1'',
       attributes = Some \<lparr>bold = None, italic = None, underline = None,
         fontSize = Some ''18px'', fontFamily = Some ''Inter, system-ui, sans-serif''\<rparr>\<rparr>],
     rawChars = [0], undoStack = [], redoStack = []\<rparr>) =
     [\<lparr>val = ''a'', position = [50], siteId = ''S1'',
       attributes = Some \<lparr>bold = Some True, italic = None, underline = None,
         fontSize = Some ''18px'', fontFamily = Some ''Inter, system-ui, sans-serif''\<rparr>\<rparr>] \<and>
   contents (handleUndo coll (applyToSelection
     \<lparr>bold = Some True, italic = None, underline = None, fontSize = None, fontFamily = None\<rparr> 0 1
     \<lparr>objects = [\<lparr>val = ''a'', position = [50], siteId = ''S1'',
       attributes = Some \<lparr>bold = None, italic = None, underline = None,
         fontSize = Some ''18px'', fontFamily = Some ''Inter, system-ui, sans-serif''\<rparr>\<rparr>],
     rawChars = [0], undoStack = [], redoStack = []\<rparr>)) =
     [\<lparr>val = ''a'', position = [50], siteId = ''S1'',
       attributes = Some \<lparr>bold = Some True, italic = None, underline = None,
         fontSize = Some ''18px'', fontFamily = Some ''Inter, system-ui, sans-serif''\<rparr>\<rparr>] \<and>
   redoStack (handleUndo coll (applyToSelection
     \<lparr>bold = Some True, italic = None, underline = None, fontSize = None, fontFamily = None\<rparr> 0 1
     \<lparr>objects = [\<lparr>val = ''a'', position = [50], siteId = ''S1'',
       attributes = Some \<lparr>bold = None, italic = None, underline = None,
         fontSize = Some ''18px'', fontFamily = Some ''Inter, system-ui, sans-serif''\<rparr>\<rparr>],
     rawChars = [0], undoStack = [], redoStack = []\<rparr>)) =
     [[\<lparr>type = entry_format, char = 0,
        prevAttributes = Some \<lparr>bold = Some True, italic = None, underline = None,
          fontSize = Some ''18px'', fontFamily = Some ''Inter, system-ui, sans-serif''\<rparr>\<rparr>]]"
  by code_simp

section \<open>Claim C8: loadState\<close>

text \<open>
  Claim C8, as amended.  Under every collation: in every state the engine can reach,
  \<open>loadState\<close> of the engine's own \<open>state\<close> gives back the same sequence, hence
  the same text and attributes.  For any snapshot \<open>loadState\<close> leaves a sequence
  sorted under the comparator with the snapshot's elements.  When no two elements of
  the snapshot are tied under the comparator, the result and its text do not depend on
  the order of the elements in the snapshot.  The sort is stable, so two tied elements,
  with one key or with site ids the collation does not tell apart, stay in the order
  the snapshot had them.
\<close>

theorem loadState_round_trip:
  "(reachable coll site cs \<longrightarrow> loadState coll (Some (get_state cs)) = cs) \<and>
   sorted_chars coll (loadState coll (Some st)) \<and> mset (loadState coll (Some st)) = mset st \<and>
   (untied coll st \<and> mset st' = mset st \<longrightarrow>
      loadState coll (Some st') = loadState coll (Some st) \<and>
      get_text (loadState coll (Some st')) = get_text (loadState coll (Some st)))"
proof (intro conjI impI)
  assume "reachable coll site cs"
  then have "sorted_chars coll cs" by (rule reachable_sorted)
  then show "loadState coll (Some (get_state cs)) = cs" by (simp add: loadState_sorted_id)
next
  show "sorted_chars coll (loadState coll (Some st))" by (rule sorted_chars_loadState)
next
  show "mset (loadState coll (Some st)) = mset st" by (simp add: loadState_Some)
next
  assume "untied coll st \<and> mset st' = mset st"
  then show "loadState coll (Some st') = loadState coll (Some st)" by (simp add: loadState_perm)
next
  assume "untied coll st \<and> mset st' = mset st"
  then have "loadState coll (Some st') = loadState coll (Some st)" by (simp add: loadState_perm)
  then show "get_text (loadState coll (Some st')) = get_text (loadState coll (Some st))" by simp
qed

theorem loadState_round_trip_witness:
  "reachable ignoring_controls ''S2''
     [\<lparr>val = ''y'', position = [5], siteId = ''S1'', attributes = None\<rparr>,
      \<lparr>val = ''x'', position = [10], siteId = ''S1'', attributes = None\<rparr>] \<and>
   loadState ignoring_controls (Some (get_state
     [\<lparr>val = ''y'', position = [5], siteId = ''S1'', attributes = None\<rparr>,
      \<lparr>val = ''x'', position = [10], siteId = ''S1'', attributes = None\<rparr>])) =
     [\<lparr>val = ''y'', position = [5], siteId = ''S1'', attributes = None\<rparr>,
      \<lparr>val = ''x'', position = [10], siteId = ''S1'', attributes = None\<rparr>] \<and>
   untied ignoring_controls
     [\<lparr>val = ''x'', position = [10], siteId = ''S1'', attributes = None\<rparr>,
      \<lparr>val = ''y'', position = [5], siteId = ''S1'', attributes = None\<rparr>] \<and>
   get_text (loadState ignoring_controls (Some
     [\<lparr>val = ''y'', position = [5], siteId = ''S1'', attributes = None\<rparr>,
      \<lparr>val = ''x'', position = [10], siteId = ''S1'', attributes = None\<rparr>])) =
   get_text (loadState ignoring_controls (Some
     [\<lparr>val = ''x'', position = [10], siteId = ''S1'', attributes = None\<rparr>,
      \<lparr>val = ''y'', position = [5], siteId = ''S1'', attributes = None\<rparr>]))"
proof -
  let ?y = "\<lparr>val = ''y'', position = [5], siteId = ''S1'', attributes = None\<rparr>"
  let ?x = "\<lparr>val = ''x'', position = [10], siteId = ''S1'', attributes = None\<rparr>"
  let ?c = "ignoring_controls"
  have "run_call ?c ''S2'' (LoadState (Some [?x, ?y])) [] = [?y, ?x]" by code_simp
  then have r: "reachable ?c ''S2'' [?y, ?x]"
    using reachable_call [OF reachable_init, of ?c "''S2''" "LoadState (Some [?x, ?y])"] by simp
  have d: "untied ?c [?x, ?y]" by (simp add: untied_def order_key_def)
  have m: "mset [?y, ?x] = mset [?x, ?y]" by simp
  note t = loadState_round_trip [of ?c "''S2''" "[?y, ?x]" "[?x, ?y]" "[?y, ?x]"]
  have a: "loadState ?c (Some (get_state [?y, ?x])) = [?y, ?x]" using t r by blast
  have b: "get_text (loadState ?c (Some [?y, ?x])) = get_text (loadState ?c (Some [?x, ?y]))"
    using t d m by blast
  show ?thesis using r a d b by simp
qed

theorem loadState_round_trip_counterexample:
  "get_text (loadState ignoring_controls (Some
     [\<lparr>val = ''x'', position = [5], siteId = ''S1'', attributes = None\<rparr>,
      \<lparr>val = ''y'', position = [5], siteId = ''S1'', attributes = None\<rparr>])) = ''xy'' \<and>
   get_text (loadState ignoring_controls (Some
     [\<lparr>val = ''y'', position = [5], siteId = ''S1'', attributes = None\<rparr>,
      \<lparr>val = ''x'', position = [5], siteId = ''S1'', attributes = None\<rparr>])) = ''yx'' \<and>
   distinct_keys
     [\<lparr>val = ''x'', position = [5], siteId = ''S1'', attributes = None\<rparr>,
      \<lparr>val = ''y'', position = [5], siteId = ''S1'' @ [CHR 0x01], attributes = None\<rparr>] \<and>
   get_text (loadState ignoring_controls (Some
     [\<lparr>val = ''x'', position = [5], siteId = ''S1'', attributes = None\<rparr>,
      \<lparr>val = ''y'', position = [5], siteId = ''S1'' @ [CHR 0x01], attributes = None\<rparr>])) = ''xy'' \<and>
   get_text (loadState ignoring_controls (Some
     [\<lparr>val = ''y'', position = [5], siteId = ''S1'' @ [CHR 0x01], attributes = None\<rparr>,
      \<lparr>val = ''x'', position = [5], siteId = ''S1'', attributes = None\<rparr>])) = ''yx''"
  by code_simp

section \<open>Claim C9: localInsert\<close>

text \<open>
  Claim C9, as amended.  \<open>localInsert\<close> does not clamp its index.  For an index below
  0 or above the length both neighbours are missing, so the new element gets the
  position between the sentinels \<open>[0]\<close> and \<open>[100]\<close>, which is \<open>[50]\<close>, whatever
  the sequence holds.  For an index from 0 to the length the element is allocated
  between the positions of the elements at \<open>index - 1\<close> and \<open>index\<close> (\<open>[0]\<close> at the
  start, \<open>[100]\<close> at the end).  The element returned is the one handed to
  \<open>remoteInsert\<close>, which in a sorted sequence leaves the sequence unchanged when an
  element tied with the new one is present, and otherwise splices the new element in
  where the comparator puts it.  That place is \<open>index\<close> when the index is in range
  and the allocated position lies strictly between the positions of the neighbours
  that exist; so it is when the position before sorts strictly before the position
  after and the two meet the conditions of claim C2.  Between two neighbours with one
  position the allocated position sorts after both, and the element lands behind the
  index; and where the allocator runs into its safety valve (claim C2) the element can
  get the position of its left neighbour and is dropped as tied with it.  This holds
  under every collation.
\<close>

theorem localInsert_neighbours:
  "(index < 0 \<or> int (length cs) < index \<longrightarrow>
      snd (localInsert coll site index v attrs cs) =
        \<lparr>val = v, position = [50], siteId = site, attributes = attrs\<rparr>) \<and>
   (0 \<le> index \<and> index \<le> int (length cs) \<longrightarrow>
      snd (localInsert coll site index v attrs cs) =
        \<lparr>val = v,
         position = generateIdentifierBetween
           (if index = 0 then [0] else position (cs ! nat (index - 1)))
           (if index = int (length cs) then [100] else position (cs ! nat index)),
         siteId = site, attributes = attrs\<rparr>) \<and>
   (sorted_chars coll cs \<and>
    order_key coll (snd (localInsert coll site index v attrs cs)) \<in> order_key coll ` set cs \<longrightarrow>
      fst (localInsert coll site index v attrs cs) = cs) \<and>
   (sorted_chars coll cs \<and>
    order_key coll (snd (localInsert coll site index v attrs cs)) \<notin> order_key coll ` set cs \<longrightarrow>
      (\<exists>l. l \<le> length cs \<and>
         fst (localInsert coll site index v attrs cs) =
           take l cs @ snd (localInsert coll site index v attrs cs) # drop l cs \<and>
         (\<forall>j<l. order_key coll (cs ! j) <
                  order_key coll (snd (localInsert coll site index v attrs cs))) \<and>
         (\<forall>j. l \<le> j \<and> j < length cs \<longrightarrow>
              order_key coll (snd (localInsert coll site index v attrs cs)) <
              order_key coll (cs ! j)))) \<and>
   (sorted_chars coll cs \<and> 0 \<le> index \<and> index \<le> int (length cs) \<and>
    (index \<noteq> 0 \<longrightarrow>
       compareArrays (position (cs ! nat (index - 1)))
         (position (snd (localInsert coll site index v attrs cs))) < 0) \<and>
    (index \<noteq> int (length cs) \<longrightarrow>
       compareArrays (position (snd (localInsert coll site index v attrs cs)))
         (position (cs ! nat index)) < 0) \<longrightarrow>
      fst (localInsert coll site index v attrs cs) =
        take (nat index) cs @ snd (localInsert coll site index v attrs cs) # drop (nat index) cs) \<and>
   (sorted_chars coll cs \<and> 0 \<le> index \<and> index \<le> int (length cs) \<and>
    compareArrays (prev_position cs index) (next_position cs index) < 0 \<and>
    (\<forall>c \<in> set (prev_position cs index). - (2 ^ 53) \<le> c \<and> c \<le> 2 ^ 53) \<and>
    (\<forall>c \<in> set (next_position cs index). 0 \<le> c \<and> c \<le> 2 ^ 53) \<and>
    last (next_position cs index) \<noteq> 0 \<and>
    finds_room (prev_position cs index) (next_position cs index) \<longrightarrow>
      fst (localInsert coll site index v attrs cs) =
        take (nat index) cs @ snd (localInsert coll site index v attrs cs) # drop (nat index) cs)"
proof (intro conjI impI)
  assume "index < 0 \<or> int (length cs) < index"
  then have "prev_position cs index = [0]" "next_position cs index = [100]"
    by (auto simp add: prev_position_cases next_position_cases)
  moreover have "generateIdentifierBetween [0] [100] = [50]" by code_simp
  ultimately show "snd (localInsert coll site index v attrs cs) =
      \<lparr>val = v, position = [50], siteId = site, attributes = attrs\<rparr>"
    by (simp add: snd_localInsert)
next
  assume a: "0 \<le> index \<and> index \<le> int (length cs)"
  then have "prev_position cs index = (if index = 0 then [0] else position (cs ! nat (index - 1)))"
    by (auto simp add: prev_position_cases)
  moreover have "next_position cs index =
      (if index = int (length cs) then [100] else position (cs ! nat index))"
    using a by (auto simp add: next_position_cases)
  ultimately show "snd (localInsert coll site index v attrs cs) =
        \<lparr>val = v,
         position = generateIdentifierBetween
           (if index = 0 then [0] else position (cs ! nat (index - 1)))
           (if index = int (length cs) then [100] else position (cs ! nat index)),
         siteId = site, attributes = attrs\<rparr>"
    by (simp only: snd_localInsert)
next
  let ?c = "snd (localInsert coll site index v attrs cs)"
  assume "sorted_chars coll cs \<and> order_key coll ?c \<in> order_key coll ` set cs"
  then have "remoteInsert coll ?c cs = (cs, None)" by (simp add: remoteInsert_present)
  then show "fst (localInsert coll site index v attrs cs) = cs"
    using fst_localInsert [of coll site index v attrs cs] by simp
next
  let ?c = "snd (localInsert coll site index v attrs cs)"
  assume "sorted_chars coll cs \<and> order_key coll ?c \<notin> order_key coll ` set cs"
  then obtain l where "remoteInsert coll ?c cs = (take l cs @ ?c # drop l cs, Some l)"
    "l \<le> length cs" "\<forall>j<l. order_key coll (cs ! j) < order_key coll ?c"
    "\<forall>j. l \<le> j \<and> j < length cs \<longrightarrow> order_key coll ?c < order_key coll (cs ! j)"
    using remoteInsert_absent [of coll cs ?c] by blast
  then show "\<exists>l. l \<le> length cs \<and>
         fst (localInsert coll site index v attrs cs) = take l cs @ ?c # drop l cs \<and>
         (\<forall>j<l. order_key coll (cs ! j) < order_key coll ?c) \<and>
         (\<forall>j. l \<le> j \<and> j < length cs \<longrightarrow> order_key coll ?c < order_key coll (cs ! j))"
    using fst_localInsert [of coll site index v attrs cs] by (intro exI [of _ l]) simp
next
  let ?c = "snd (localInsert coll site index v attrs cs)"
  assume a: "sorted_chars coll cs \<and> 0 \<le> index \<and> index \<le> int (length cs) \<and>
    (index \<noteq> 0 \<longrightarrow> compareArrays (position (cs ! nat (index - 1))) (position ?c) < 0) \<and>
    (index \<noteq> int (length cs) \<longrightarrow> compareArrays (position ?c) (position (cs ! nat index)) < 0)"
  have lo: "position (cs ! (nat index - 1)) < position ?c" if "nat index \<noteq> 0"
  proof -
    have "index \<noteq> 0" "nat (index - 1) = nat index - 1" using that by simp_all
    then have "compareArrays (position (cs ! (nat index - 1))) (position ?c) < 0"
      using a by simp
    then show ?thesis by (simp add: compareArrays_lex split: if_splits)
  qed
  have hi: "position ?c < position (cs ! nat index)" if "nat index < length cs"
  proof -
    have "index \<noteq> int (length cs)" using that by auto
    then have "compareArrays (position ?c) (position (cs ! nat index)) < 0" using a by simp
    then show ?thesis by (simp add: compareArrays_lex split: if_splits)
  qed
  have r: "nat index \<le> length cs" using a by linarith
  have "remoteInsert coll ?c cs = (take (nat index) cs @ ?c # drop (nat index) cs, Some (nat index))"
    using a r lo hi by (intro splice_at_index) simp_all
  then show "fst (localInsert coll site index v attrs cs) =
             take (nat index) cs @ ?c # drop (nat index) cs"
    using fst_localInsert [of coll site index v attrs cs] by simp
next
  let ?prev = "prev_position cs index" and ?next = "next_position cs index"
  let ?c = "snd (localInsert coll site index v attrs cs)"
  assume a: "sorted_chars coll cs \<and> 0 \<le> index \<and> index \<le> int (length cs) \<and>
    compareArrays ?prev ?next < 0 \<and>
    (\<forall>c \<in> set ?prev. - (2 ^ 53) \<le> c \<and> c \<le> 2 ^ 53) \<and>
    (\<forall>c \<in> set ?next. 0 \<le> c \<and> c \<le> 2 ^ 53) \<and>
    last ?next \<noteq> 0 \<and> finds_room ?prev ?next"
  then have "?prev < ?next" by (simp add: compareArrays_lex split: if_splits)
  then have b: "?prev < generateIdentifierBetween ?prev ?next \<and>
                generateIdentifierBetween ?prev ?next < ?next"
    using a by (intro generateIdentifierBetween_between) blast+
  have p: "position ?c = generateIdentifierBetween ?prev ?next" by (simp add: snd_localInsert)
  have lo: "position (cs ! (nat index - 1)) < position ?c" if "nat index \<noteq> 0"
  proof -
    have "?prev = position (cs ! (nat index - 1))"
      using that a by (auto simp add: prev_position_cases nat_diff_distrib)
    then show ?thesis using b p by simp
  qed
  have hi: "position ?c < position (cs ! nat index)" if "nat index < length cs"
  proof -
    have "?next = position (cs ! nat index)"
      using that a by (auto simp add: next_position_cases)
    then show ?thesis using b p by simp
  qed
  have r: "nat index \<le> length cs" using a by linarith
  have "remoteInsert coll ?c cs = (take (nat index) cs @ ?c # drop (nat index) cs, Some (nat index))"
    using a r lo hi by (intro splice_at_index) simp_all
  then show "fst (localInsert coll site index v attrs cs) =
             take (nat index) cs @ ?c # drop (nat index) cs"
    using fst_localInsert [of coll site index v attrs cs] by simp
qed

theorem localInsert_neighbours_witness:
  "sorted_chars ignoring_controls
     [\<lparr>val = ''a'', position = [75], siteId = ''S1'', attributes = None\<rparr>] \<and>
   compareArrays (prev_position [\<lparr>val = ''a'', position = [75], siteId = ''S1'', attributes = None\<rparr>] 1)
                 (next_position [\<lparr>val = ''a'', position = [75], siteId = ''S1'', attributes = None\<rparr>] 1) < 0 \<and>
   finds_room (prev_position [\<lparr>val = ''a'', position = [75], siteId = ''S1'', attributes = None\<rparr>] 1)
              (next_position [\<lparr>val = ''a'', position = [75], siteId = ''S1'', attributes = None\<rparr>] 1) \<and>
   snd (localInsert ignoring_controls ''S1'' 1 ''x'' None
          [\<lparr>val = ''a'', position = [75], siteId = ''S1'', attributes = None\<rparr>]) =
     \<lparr>val = ''x'', position = [88], siteId = ''S1'', attributes = None\<rparr> \<and>
   fst (localInsert ignoring_controls ''S1'' 1 ''x'' None
          [\<lparr>val = ''a'', position = [75], siteId = ''S1'', attributes = None\<rparr>]) =
     [\<lparr>val = ''a'', position = [75], siteId = ''S1'', attributes = None\<rparr>,
      \<lparr>val = ''x'', position = [88], siteId = ''S1'', attributes = None\<rparr>] \<and>
   snd (localInsert ignoring_controls ''S1'' 7 ''x'' None
          [\<lparr>val = ''a'', position = [75], siteId = ''S1'', attributes = None\<rparr>]) =
     \<lparr>val = ''x'', position = [50], siteId = ''S1'', attributes = None\<rparr>"
proof -
  let ?a = "\<lparr>val = ''a'', position = [75], siteId = ''S1'', attributes = None\<rparr>"
  let ?c = "ignoring_controls"
  have s: "sorted_chars ?c [?a]" by (simp add: sorted_chars_def)
  have pn: "prev_position [?a] 1 = [75]" "next_position [?a] 1 = [100]" by code_simp+
  have g: "generateIdentifierBetween [75] [100] = [88]" by code_simp
  have c: "compareArrays [75] [100] < 0" by code_simp
  have fr: "finds_room [75] [100]" by code_simp
  note t1 = localInsert_neighbours
    [where index = 1 and cs = "[?a]" and coll = ?c and site = "''S1''" and v = "''x''" and attrs = None]
  note t7 = localInsert_neighbours
    [where index = 7 and cs = "[?a]" and coll = ?c and site = "''S1''" and v = "''x''" and attrs = None]
  have "0 \<le> (1::int) \<and> 1 \<le> int (length [?a])" by simp
  then have "snd (localInsert ?c ''S1'' 1 ''x'' None [?a]) =
      \<lparr>val = ''x'',
       position = generateIdentifierBetween
         (if (1::int) = 0 then [0] else position ([?a] ! nat (1 - 1)))
         (if (1::int) = int (length [?a]) then [100] else position ([?a] ! nat 1)),
       siteId = ''S1'', attributes = None\<rparr>"
    using t1 by blast
  then have e: "snd (localInsert ?c ''S1'' 1 ''x'' None [?a]) =
      \<lparr>val = ''x'', position = [88], siteId = ''S1'', attributes = None\<rparr>"
    by (simp add: g)
  have h: "sorted_chars ?c [?a] \<and> 0 \<le> (1::int) \<and> 1 \<le> int (length [?a]) \<and>
    compareArrays (prev_position [?a] 1) (next_position [?a] 1) < 0 \<and>
    (\<forall>c \<in> set (prev_position [?a] 1). - (2 ^ 53) \<le> c \<and> c \<le> 2 ^ 53) \<and>
    (\<forall>c \<in> set (next_position [?a] 1). 0 \<le> c \<and> c \<le> 2 ^ 53) \<and>
    last (next_position [?a] 1) \<noteq> 0 \<and>
    finds_room (prev_position [?a] 1) (next_position [?a] 1)"
    using s c fr by (simp add: pn)
  have "fst (localInsert ?c ''S1'' 1 ''x'' None [?a]) =
      take (nat 1) [?a] @ snd (localInsert ?c ''S1'' 1 ''x'' None [?a]) # drop (nat 1) [?a]"
    using t1 h by blast
  then have f: "fst (localInsert ?c ''S1'' 1 ''x'' None [?a]) =
      [?a, snd (localInsert ?c ''S1'' 1 ''x'' None [?a])]"
    by simp
  have "(7::int) < 0 \<or> int (length [?a]) < 7" by simp
  then have o: "snd (localInsert ?c ''S1'' 7 ''x'' None [?a]) =
      \<lparr>val = ''x'', position = [50], siteId = ''S1'', attributes = None\<rparr>"
    using t7 by blast
  show ?thesis using s c fr e f o unfolding pn by simp
qed

theorem localInsert_neighbours_counterexample:
  "fst (localInsert ignoring_controls ''S1'' 2 ''x'' None
          [\<lparr>val = ''a'', position = [75], siteId = ''S1'', attributes = None\<rparr>]) =
     [\<lparr>val = ''x'', position = [50], siteId = ''S1'', attributes = None\<rparr>,
      \<lparr>val = ''a'', position = [75], siteId = ''S1'', attributes = None\<rparr>] \<and>
   fst (localInsert ignoring_controls ''S1'' 1 ''x'' None
          [\<lparr>val = ''a'', position = [75], siteId = ''S1'', attributes = None\<rparr>]) =
     [\<lparr>val = ''a'', position = [75], siteId = ''S1'', attributes = None\<rparr>,
      \<lparr>val = ''x'', position = [88], siteId = ''S1'', attributes = None\<rparr>] \<and>
   fst (localInsert ignoring_controls ''S1'' (-1) ''x'' None
          [\<lparr>val = ''a'', position = [25], siteId = ''S1'', attributes = None\<rparr>]) =
     [\<lparr>val = ''a'', position = [25], siteId = ''S1'', attributes = None\<rparr>,
      \<lparr>val = ''x'', position = [50], siteId = ''S1'', attributes = None\<rparr>] \<and>
   fst (localInsert ignoring_controls ''S1'' 0 ''x'' None
          [\<lparr>val = ''a'', position = [25], siteId = ''S1'', attributes = None\<rparr>]) =
     [\<lparr>val = ''x'', position = [13], siteId = ''S1'', attributes = None\<rparr>,
      \<lparr>val = ''a'', position = [25], siteId = ''S1'', attributes = None\<rparr>] \<and>
   fst (localInsert ignoring_controls ''S1'' 1 ''c'' None
          [\<lparr>val = ''A'', position = [50], siteId = ''S1'', attributes = None\<rparr>,
           \<lparr>val = ''B'', position = [50], siteId = ''S2'', attributes = None\<rparr>]) =
     [\<lparr>val = ''A'', position = [50], siteId = ''S1'', attributes = None\<rparr>,
      \<lparr>val = ''B'', position = [50], siteId = ''S2'', attributes = None\<rparr>,
      \<lparr>val = ''c'', position = [50, 512], siteId = ''S1'', attributes = None\<rparr>] \<and>
   fst (localInsert ignoring_controls ''S1'' 1 ''x'' None
          [\<lparr>val = ''a'', position = 99 # replicate 128 1023 @ [1024], siteId = ''S1'',
             attributes = None\<rparr>]) =
     [\<lparr>val = ''a'', position = 99 # replicate 128 1023 @ [1024], siteId = ''S1'',
        attributes = None\<rparr>]"
  by code_simp

section \<open>Claim C10: the frame of formatting\<close>

text \<open>
  Claim C10.  \<open>localFormat\<close> and \<open>remoteFormat\<close> keep the length of the sequence
  and the value, position and site id of every element.  \<open>localFormat\<close> leaves every
  element other than the one at \<open>index\<close> as it was, \<open>remoteFormat\<close> every element
  other than the first one with the key.  On every element the attribute keys that the
  patch does not set stay as they were.
\<close>

theorem format_frame:
  "length (fst (localFormat index patch cs)) = length cs \<and>
   (\<forall>j<length cs. int j \<noteq> index \<longrightarrow> fst (localFormat index patch cs) ! j = cs ! j) \<and>
   (\<forall>j<length cs.
      val (fst (localFormat index patch cs) ! j) = val (cs ! j) \<and>
      position (fst (localFormat index patch cs) ! j) = position (cs ! j) \<and>
      siteId (fst (localFormat index patch cs) ! j) = siteId (cs ! j) \<and>
      agree_outside patch (attributes_or_empty (fst (localFormat index patch cs) ! j))
        (attributes_or_empty (cs ! j))) \<and>
   length (remoteFormat pos site patch cs) = length cs \<and>
   (\<forall>j<length cs.
      char_key (cs ! j) \<noteq> (pos, site) \<or> (\<exists>i<j. char_key (cs ! i) = (pos, site)) \<longrightarrow>
      remoteFormat pos site patch cs ! j = cs ! j) \<and>
   (\<forall>j<length cs.
      val (remoteFormat pos site patch cs ! j) = val (cs ! j) \<and>
      position (remoteFormat pos site patch cs ! j) = position (cs ! j) \<and>
      siteId (remoteFormat pos site patch cs ! j) = siteId (cs ! j) \<and>
      agree_outside patch (attributes_or_empty (remoteFormat pos site patch cs ! j))
        (attributes_or_empty (cs ! j)))"
proof (intro conjI)
  show "length (fst (localFormat index patch cs)) = length cs"
    by (simp add: localFormat_cases)
  show "\<forall>j<length cs. int j \<noteq> index \<longrightarrow> fst (localFormat index patch cs) ! j = cs ! j"
    by (auto simp add: localFormat_cases)
  show "\<forall>j<length cs.
      val (fst (localFormat index patch cs) ! j) = val (cs ! j) \<and>
      position (fst (localFormat index patch cs) ! j) = position (cs ! j) \<and>
      siteId (fst (localFormat index patch cs) ! j) = siteId (cs ! j) \<and>
      agree_outside patch (attributes_or_empty (fst (localFormat index patch cs) ! j))
        (attributes_or_empty (cs ! j))"
  proof (cases "0 \<le> index \<and> index < int (length cs)")
    case True
    then have "nat index < length cs" by linarith
    from update_frame [OF this, of patch] show ?thesis
      using True by (simp add: localFormat_cases)
  next
    case False
    then have "fst (localFormat index patch cs) = cs" by (auto simp add: localFormat_cases)
    then show ?thesis by (simp add: agree_outside_refl)
  qed
  show "length (remoteFormat pos site patch cs) = length cs"
    using remoteFormat_cases [of cs pos site patch] by auto
  show "\<forall>j<length cs.
      char_key (cs ! j) \<noteq> (pos, site) \<or> (\<exists>i<j. char_key (cs ! i) = (pos, site)) \<longrightarrow>
      remoteFormat pos site patch cs ! j = cs ! j"
    using remoteFormat_cases [of cs pos site patch]
    by (auto simp add: nth_list_update)
  show "\<forall>j<length cs.
      val (remoteFormat pos site patch cs ! j) = val (cs ! j) \<and>
      position (remoteFormat pos site patch cs ! j) = position (cs ! j) \<and>
      siteId (remoteFormat pos site patch cs ! j) = siteId (cs ! j) \<and>
      agree_outside patch (attributes_or_empty (remoteFormat pos site patch cs ! j))
        (attributes_or_empty (cs ! j))"
    using remoteFormat_cases [of cs pos site patch]
  proof
    assume "\<exists>i<length cs. char_key (cs ! i) = (pos, site) \<and> (\<forall>j<i. char_key (cs ! j) \<noteq> (pos, site)) \<and>
       remoteFormat pos site patch cs = cs[i := format_char patch (cs ! i)]"
    then obtain i where "i < length cs" "remoteFormat pos site patch cs = cs[i := format_char patch (cs ! i)]"
      by blast
    then show ?thesis using update_frame [of i cs patch] by simp
  next
    assume "(pos, site) \<notin> char_key ` set cs \<and> remoteFormat pos site patch cs = cs"
    then show ?thesis by (simp add: agree_outside_refl)
  qed
qed

theorem format_frame_witness:
  "fst (localFormat 0 \<lparr>bold = Some True, italic = None, underline = None, fontSize = None, fontFamily = None\<rparr>
     [\<lparr>val = ''a'', position = [50], siteId = ''S1'',
        attributes = Some \<lparr>bold = None, italic = Some True, underline = None,
                              fontSize = Some ''18px'', fontFamily = None\<rparr>\<rparr>,
      \<lparr>val = ''b'', position = [75], siteId = ''S1'', attributes = None\<rparr>]) =
     [\<lparr>val = ''a'', position = [50], siteId = ''S1'',
        attributes = Some \<lparr>bold = Some True, italic = Some True, underline = None,
                              fontSize = Some ''18px'', fontFamily = None\<rparr>\<rparr>,
      \<lparr>val = ''b'', position = [75], siteId = ''S1'', attributes = None\<rparr>] \<and>
   fst (localFormat 0 \<lparr>bold = Some True, italic = None, underline = None, fontSize = None, fontFamily = None\<rparr>
     [\<lparr>val = ''a'', position = [50], siteId = ''S1'',
        attributes = Some \<lparr>bold = None, italic = Some True, underline = None,
                              fontSize = Some ''18px'', fontFamily = None\<rparr>\<rparr>,
      \<lparr>val = ''b'', position = [75], siteId = ''S1'', attributes = None\<rparr>]) ! 1 =
     \<lparr>val = ''b'', position = [75], siteId = ''S1'', attributes = None\<rparr> \<and>
   remoteFormat [75] ''S1'' \<lparr>bold = Some True, italic = None, underline = None, fontSize = None, fontFamily = None\<rparr>
     [\<lparr>val = ''a'', position = [50], siteId = ''S1'',
        attributes = Some \<lparr>bold = None, italic = Some True, underline = None,
                              fontSize = Some ''18px'', fontFamily = None\<rparr>\<rparr>,
      \<lparr>val = ''b'', position = [75], siteId = ''S1'', attributes = None\<rparr>] ! 0 =
     \<lparr>val = ''a'', position = [50], siteId = ''S1'',
        attributes = Some \<lparr>bold = None, italic = Some True, underline = None,
                              fontSize = Some ''18px'', fontFamily = None\<rparr>\<rparr>"
proof -
  let ?p = "\<lparr>bold = Some True, italic = None, underline = None, fontSize = None, fontFamily = None\<rparr>"
  let ?a = "\<lparr>val = ''a'', position = [50], siteId = ''S1'',
        attributes = Some \<lparr>bold = None, italic = Some True, underline = None,
                              fontSize = Some ''18px'', fontFamily = None\<rparr>\<rparr>"
  let ?b = "\<lparr>val = ''b'', position = [75], siteId = ''S1'', attributes = None\<rparr>"
  note t = format_frame [of 0 ?p "[?a, ?b]" "[75]" "''S1''"]
  have v: "fst (localFormat 0 ?p [?a, ?b]) =
     [\<lparr>val = ''a'', position = [50], siteId = ''S1'',
        attributes = Some \<lparr>bold = Some True, italic = Some True, underline = None,
                              fontSize = Some ''18px'', fontFamily = None\<rparr>\<rparr>, ?b]"
    by code_simp
  have l: "\<forall>j<length [?a, ?b]. int j \<noteq> 0 \<longrightarrow> fst (localFormat 0 ?p [?a, ?b]) ! j = [?a, ?b] ! j"
    using t by blast
  have l1: "fst (localFormat 0 ?p [?a, ?b]) ! 1 = ?b"
    using l [rule_format, of 1] by simp
  have r: "\<forall>j<length [?a, ?b].
      char_key ([?a, ?b] ! j) \<noteq> ([75], ''S1'') \<or> (\<exists>i<j. char_key ([?a, ?b] ! i) = ([75], ''S1'')) \<longrightarrow>
      remoteFormat [75] ''S1'' ?p [?a, ?b] ! j = [?a, ?b] ! j"
    using t by blast
  have r0: "remoteFormat [75] ''S1'' ?p [?a, ?b] ! 0 = ?a"
    using r [rule_format, of 0] by (simp add: char_key_def)
  show ?thesis using v l1 r0 by simp
qed

end
